theory Spec2Isabelle
  imports Main "HOL-Library.Word"
begin

section \<open>JavaScript strings\<close>

text \<open>
  A JavaScript string is a sequence of 16-bit code units. The request body (after
  Node has decoded it), the log file contents and every string inside a parsed value
  are such sequences. \<open>js\<close> turns an ASCII literal into one.
\<close>

type_synonym jstr = "16 word list"

definition js :: "string \<Rightarrow> jstr" where
  "js s = map of_char s"

section \<open>The values \<open>JSON.parse\<close> produces\<close>

text \<open>
  A number is a binary64. \<open>Finite m e\<close> stands for the binary64 that \<open>m * 10 ^ e\<close>
  rounds to, where \<open>m\<close> and \<open>e\<close> are the digits and the exponent that \<open>Number::toString\<close>
  gives for it: the shortest decimal that rounds to this binary64, \<open>m\<close> not a multiple
  of ten (and zero is \<open>Finite 0 0\<close>). \<open>Infinite neg\<close> is what a literal too large for a
  binary64 parses to. Negative zero is identified with zero: the program cannot tell
  them apart.
\<close>

datatype jsnum = Finite int int | Infinite bool

datatype jsval =
    JNull
  | JBool bool
  | JNum jsnum
  | JStr jstr
  | JArr "jsval list"
  | JObj "(jstr \<times> jsval) list"

subsection \<open>Numbers: \<open>StringToNumber\<close> on a JSON literal\<close>

definition is_digit :: "16 word \<Rightarrow> bool" where
  "is_digit c = (0x30 \<le> c \<and> c \<le> 0x39)"

definition digit_val :: "16 word \<Rightarrow> nat" where
  "digit_val c = unat c - 48"

definition digits_val :: "jstr \<Rightarrow> nat" where
  "digits_val ds = foldl (\<lambda>a c. 10 * a + digit_val c) 0 ds"

function normalise :: "int \<Rightarrow> int \<Rightarrow> int \<times> int" where
  "normalise m e =
     (if m = 0 then (0, 0)
      else if m mod 10 = 0 then normalise (m div 10) (e + 1)
      else (m, e))"
  by pat_completeness auto
termination
  by (relation "measure (\<lambda>(m, e). nat \<bar>m\<bar>)") auto

text \<open>
  The size of a positive integer in binary and in decimal digits, and the exponent of
  the power of two at or below a positive fraction \<open>a / b\<close>.
\<close>

function bit_length :: "int \<Rightarrow> int" where
  "bit_length a = (if a \<le> 0 then 0 else 1 + bit_length (a div 2))"
  by pat_completeness auto
termination
  by (relation "measure nat") auto

function decimal_length :: "int \<Rightarrow> int" where
  "decimal_length a = (if a \<le> 0 then 0 else 1 + decimal_length (a div 10))"
  by pat_completeness auto
termination
  by (relation "measure nat") auto

definition floor_log2 :: "int \<Rightarrow> int \<Rightarrow> int" where
  "floor_log2 a b =
     (let t = bit_length a - bit_length b
      in if (if 0 \<le> t then b * 2 ^ nat t \<le> a else b \<le> a * 2 ^ nat (- t)) then t
         else t - 1)"

text \<open>The integer nearest to \<open>a / b\<close>, the even one of two that are equally near.\<close>

definition round_half_even :: "int \<Rightarrow> int \<Rightarrow> int" where
  "round_half_even a b =
     (let q = a div b; r = a mod b
      in if 2 * r < b then q else if b < 2 * r then q + 1 else if even q then q else q + 1)"

text \<open>
  The magnitude of a binary64: \<open>Binary f x\<close> is \<open>f * 2 ^ x\<close> with a significand \<open>f\<close>
  of 53 bits, or of fewer at the least exponent \<open>-1074\<close>. \<open>round64 m e\<close> is the one
  nearest to \<open>m * 10 ^ e\<close> for a positive \<open>m\<close>, ties to the even significand: \<open>Overflow\<close>
  from \<open>2^1024 - 2^970\<close> on, \<open>Zero\<close> up to \<open>2^-1075\<close>.
\<close>

datatype binary64 = Zero | Binary int int | Overflow

definition round64 :: "int \<Rightarrow> int \<Rightarrow> binary64" where
  "round64 m e =
     (case normalise m e of (m', e') \<Rightarrow>
        let a = (if 0 \<le> e' then m' * 10 ^ nat e' else m');
            b = (if 0 \<le> e' then 1 else 10 ^ nat (- e'));
            x = max (floor_log2 a b - 52) (- 1074);
            f = (if 0 \<le> x then round_half_even a (b * 2 ^ nat x)
                 else round_half_even (a * 2 ^ nat (- x)) b)
        in if f = 0 then Zero
           else if f = 2 ^ 53 then (if 971 < x + 1 then Overflow else Binary (2 ^ 52) (x + 1))
           else if 971 < x then Overflow
           else Binary f x)"

text \<open>
  The digits of a binary64, as \<open>Number::toString\<close> chooses them: the least number
  \<open>k\<close> of digits for which a decimal of \<open>k\<close> digits rounds to it, and of these
  decimals the one nearest to it (the even one of two equally near). \<open>decimal_of\<close>
  is the exact value \<open>mv * 10 ^ ev\<close> of the binary64; the decimals of \<open>k\<close> digits next
  to it are its first \<open>k\<close> digits and their successor, the nearer one first. Seventeen
  digits are enough for every binary64.
\<close>

definition decimal_of :: "int \<Rightarrow> int \<Rightarrow> int \<times> int" where
  "decimal_of f x =
     (if 0 \<le> x then normalise (f * 2 ^ nat x) 0 else normalise (f * 5 ^ nat (- x)) x)"

definition candidates :: "int \<Rightarrow> int \<Rightarrow> int \<Rightarrow> (int \<times> int) list" where
  "candidates mv ev k =
     (let l = decimal_length mv
      in if l \<le> k then [(mv, ev)]
         else
           let p = 10 ^ nat (l - k); lo = mv div p; r = mv mod p; n = ev + (l - k)
           in if 2 * r < p \<or> (2 * r = p \<and> even lo) then [(lo, n), (lo + 1, n)]
              else [(lo + 1, n), (lo, n)])"

definition shortest :: "int \<Rightarrow> int \<Rightarrow> (int \<times> int) option" where
  "shortest f x =
     (case decimal_of f x of (mv, ev) \<Rightarrow>
        find (\<lambda>(s, n). round64 s n = Binary f x)
          (concat (map (candidates mv ev) [1, 2, 3, 4, 5, 6, 7, 8, 9, 10, 11, 12, 13, 14, 15, 16, 17])))"

text \<open>
  The number a literal with the digits \<open>m\<close> and the exponent \<open>e\<close> parses to. The case
  in which no decimal of up to seventeen digits is found keeps the literal's own
  digits.
\<close>

definition to_double :: "int \<Rightarrow> int \<Rightarrow> jsnum" where
  "to_double m e =
     (case normalise m e of (m', e') \<Rightarrow>
        (case round64 \<bar>m'\<bar> e' of
           Zero \<Rightarrow> Finite 0 0
         | Overflow \<Rightarrow> Infinite (m' < 0)
         | Binary f x \<Rightarrow>
             (case shortest f x of
                None \<Rightarrow> Finite m' e'
              | Some (s, n) \<Rightarrow>
                  (case normalise s n of (ms, es) \<Rightarrow> Finite (if m' < 0 then - ms else ms) es))))"

definition scan_digits :: "jstr \<Rightarrow> jstr \<times> jstr" where
  "scan_digits s = (takeWhile is_digit s, dropWhile is_digit s)"

definition scan_int :: "jstr \<Rightarrow> (jstr \<times> jstr) option" where
  "scan_int s =
     (case s of
        [] \<Rightarrow> None
      | c # r \<Rightarrow>
          if c = 0x30 then Some ([c], r)
          else if is_digit c then Some (scan_digits s)
          else None)"

definition scan_frac :: "jstr \<Rightarrow> (jstr \<times> jstr) option" where
  "scan_frac s =
     (case s of
        [] \<Rightarrow> Some ([], s)
      | c # r \<Rightarrow>
          if c = 0x2E then
            (case scan_digits r of (ds, r') \<Rightarrow> if ds = [] then None else Some (ds, r'))
          else Some ([], s))"

definition scan_sign :: "jstr \<Rightarrow> bool \<times> jstr" where
  "scan_sign s =
     (case s of
        [] \<Rightarrow> (False, s)
      | c # r \<Rightarrow> if c = 0x2D then (True, r) else if c = 0x2B then (False, r) else (False, s))"

definition scan_exp :: "jstr \<Rightarrow> (int \<times> jstr) option" where
  "scan_exp s =
     (case s of
        [] \<Rightarrow> Some (0, s)
      | c # r \<Rightarrow>
          if c = 0x65 \<or> c = 0x45 then
            (case scan_sign r of (neg, r1) \<Rightarrow>
               (case scan_digits r1 of (ds, r2) \<Rightarrow>
                  if ds = [] then None
                  else Some (if neg then - int (digits_val ds) else int (digits_val ds), r2)))
          else Some (0, s))"

definition parse_number :: "jstr \<Rightarrow> (jsnum \<times> jstr) option" where
  "parse_number s =
     (case (case s of [] \<Rightarrow> (False, s) | c # r \<Rightarrow> if c = 0x2D then (True, r) else (False, s)) of
        (neg, s1) \<Rightarrow>
          (case scan_int s1 of
             None \<Rightarrow> None
           | Some (ip, s2) \<Rightarrow>
               (case scan_frac s2 of
                  None \<Rightarrow> None
                | Some (fp, s3) \<Rightarrow>
                    (case scan_exp s3 of
                       None \<Rightarrow> None
                     | Some (ex, s4) \<Rightarrow>
                         Some (to_double
                                 (if neg then - int (digits_val (ip @ fp))
                                  else int (digits_val (ip @ fp)))
                                 (ex - int (length fp)),
                               s4)))))"

subsection \<open>Numbers: \<open>Number::toString\<close>\<close>

definition digit_of :: "nat \<Rightarrow> 16 word" where
  "digit_of d = of_nat (48 + d)"

function show_nat :: "nat \<Rightarrow> jstr" where
  "show_nat n =
     (if n < 10 then [digit_of n]
      else show_nat (n div 10) @ [digit_of (n mod 10)])"
  by pat_completeness auto
termination
  by (relation "measure id") auto

text \<open>
  The digits of a positive number \<open>mm * 10 ^ e\<close>: with \<open>k\<close> digits and the decimal
  point after the \<open>n\<close>-th, written without exponent when \<open>n\<close> is from -5 to 21.
\<close>

definition digits_text :: "nat \<Rightarrow> int \<Rightarrow> jstr" where
  "digits_text mm e =
     (let s = show_nat mm; k = int (length s); n = k + e
      in if k \<le> n \<and> n \<le> 21 then s @ replicate (nat (n - k)) 0x30
         else if 0 < n \<and> n \<le> 21 then take (nat n) s @ [0x2E] @ drop (nat n) s
         else if - 6 < n \<and> n \<le> 0 then js ''0.'' @ replicate (nat (- n)) 0x30 @ s
         else
           let ex = [0x65, if n - 1 < 0 then 0x2D else 0x2B] @ show_nat (nat \<bar>n - 1\<bar>)
           in if k = 1 then s @ ex else [hd s, 0x2E] @ tl s @ ex)"

definition number_to_string :: "jsnum \<Rightarrow> jstr" where
  "number_to_string x =
     (case x of
        Infinite neg \<Rightarrow> js (if neg then ''-Infinity'' else ''Infinity'')
      | Finite m e \<Rightarrow>
          if m = 0 then js ''0''
          else if m < 0 then 0x2D # digits_text (nat \<bar>m\<bar>) e
          else digits_text (nat \<bar>m\<bar>) e)"

declare normalise.simps [simp del]
declare bit_length.simps [simp del]
declare decimal_length.simps [simp del]
declare show_nat.simps [simp del]

subsection \<open>Strings: \<open>QuoteJSONString\<close> and the string token of \<open>JSON.parse\<close>\<close>

definition hex_digit :: "nat \<Rightarrow> 16 word" where
  "hex_digit d = (if d < 10 then digit_of d else of_nat (87 + d))"

definition unicode_escape :: "16 word \<Rightarrow> jstr" where
  "unicode_escape c =
     [0x5C, 0x75, hex_digit (unat c div 4096), hex_digit (unat c div 256 mod 16),
      hex_digit (unat c div 16 mod 16), hex_digit (unat c mod 16)]"

definition is_lead :: "16 word \<Rightarrow> bool" where
  "is_lead c = (0xD800 \<le> c \<and> c \<le> 0xDBFF)"

definition is_trail :: "16 word \<Rightarrow> bool" where
  "is_trail c = (0xDC00 \<le> c \<and> c \<le> 0xDFFF)"

definition escape_unit :: "16 word \<Rightarrow> jstr" where
  "escape_unit c =
     (if c = 0x08 then [0x5C, 0x62]
      else if c = 0x09 then [0x5C, 0x74]
      else if c = 0x0A then [0x5C, 0x6E]
      else if c = 0x0C then [0x5C, 0x66]
      else if c = 0x0D then [0x5C, 0x72]
      else if c = 0x22 then [0x5C, 0x22]
      else if c = 0x5C then [0x5C, 0x5C]
      else if c < 0x20 then unicode_escape c
      else [c])"

text \<open>
  A surrogate pair is copied; a lone surrogate is written as a \<open>\u\<close> escape
  (well-formed \<open>JSON.stringify\<close>).
\<close>

fun quote_units :: "jstr \<Rightarrow> jstr" where
  "quote_units [] = []"
| "quote_units [c] =
     (if is_lead c \<or> is_trail c then unicode_escape c else escape_unit c)"
| "quote_units (c # d # ds) =
     (if is_lead c \<and> is_trail d then c # d # quote_units ds
      else if is_lead c \<or> is_trail c then unicode_escape c @ quote_units (d # ds)
      else escape_unit c @ quote_units (d # ds))"

definition QuoteJSONString :: "jstr \<Rightarrow> jstr" where
  "QuoteJSONString s = 0x22 # quote_units s @ [0x22]"

definition hex_val :: "16 word \<Rightarrow> nat option" where
  "hex_val c =
     (if 0x30 \<le> c \<and> c \<le> 0x39 then Some (unat c - 48)
      else if 0x61 \<le> c \<and> c \<le> 0x66 then Some (unat c - 87)
      else if 0x41 \<le> c \<and> c \<le> 0x46 then Some (unat c - 55)
      else None)"

definition hex4 :: "16 word \<Rightarrow> 16 word \<Rightarrow> 16 word \<Rightarrow> 16 word \<Rightarrow> 16 word option" where
  "hex4 h1 h2 h3 h4 =
     (case (hex_val h1, hex_val h2, hex_val h3, hex_val h4) of
        (Some a, Some b, Some c, Some d) \<Rightarrow> Some (of_nat (4096 * a + 256 * b + 16 * c + d))
      | _ \<Rightarrow> None)"

definition unescape :: "16 word \<Rightarrow> 16 word option" where
  "unescape e =
     (if e = 0x22 then Some 0x22
      else if e = 0x5C then Some 0x5C
      else if e = 0x2F then Some 0x2F
      else if e = 0x62 then Some 0x08
      else if e = 0x66 then Some 0x0C
      else if e = 0x6E then Some 0x0A
      else if e = 0x72 then Some 0x0D
      else if e = 0x74 then Some 0x09
      else None)"

definition cons_unit :: "16 word \<Rightarrow> (jstr \<times> jstr) option \<Rightarrow> (jstr \<times> jstr) option" where
  "cons_unit c res = (case res of None \<Rightarrow> None | Some (u, r) \<Rightarrow> Some (c # u, r))"

text \<open>
  The units of a string token after its opening quote, up to the closing quote, and
  the text after it. A control character, a bad escape or a missing closing quote is
  a syntax error.
\<close>

fun parse_chars :: "jstr \<Rightarrow> (jstr \<times> jstr) option" where
  "parse_chars [] = None"
| "parse_chars (c # r) =
     (if c = 0x22 then Some ([], r)
      else if c = 0x5C then
        (case r of
           [] \<Rightarrow> None
         | e # r1 \<Rightarrow>
             if e = 0x75 then
               (case r1 of
                  h1 # h2 # h3 # h4 # r2 \<Rightarrow>
                    (case hex4 h1 h2 h3 h4 of
                       None \<Rightarrow> None
                     | Some u \<Rightarrow> cons_unit u (parse_chars r2))
                | _ \<Rightarrow> None)
             else
               (case unescape e of
                  None \<Rightarrow> None
                | Some u \<Rightarrow> cons_unit u (parse_chars r1)))
      else if c < 0x20 then None
      else cons_unit c (parse_chars r))"

subsection \<open>Objects: property order\<close>

text \<open>
  An ordinary object lists its array-index keys first, in ascending numeric order, then
  its other keys in the order of their creation. Defining a property that exists
  replaces its value in place.
\<close>

definition is_index :: "jstr \<Rightarrow> bool" where
  "is_index k =
     (k \<noteq> [] \<and> list_all is_digit k \<and> (hd k \<noteq> 0x30 \<or> length k = 1)
      \<and> digits_val k < 2 ^ 32 - 1)"

definition goes_before :: "jstr \<Rightarrow> jstr \<Rightarrow> bool" where
  "goes_before k k' =
     (if is_index k' then is_index k \<and> digits_val k < digits_val k' else is_index k)"

fun obj_set :: "jstr \<Rightarrow> jsval \<Rightarrow> (jstr \<times> jsval) list \<Rightarrow> (jstr \<times> jsval) list" where
  "obj_set k v [] = [(k, v)]"
| "obj_set k v ((k', v') # ps) =
     (if k = k' then (k, v) # ps
      else if goes_before k k' then (k, v) # (k', v') # ps
      else (k', v') # obj_set k v ps)"

definition build_object :: "(jstr \<times> jsval) list \<Rightarrow> (jstr \<times> jsval) list" where
  "build_object ms = foldl (\<lambda>ps (k, v). obj_set k v ps) [] ms"

subsection \<open>\<open>JSON.parse\<close>\<close>

definition is_ws :: "16 word \<Rightarrow> bool" where
  "is_ws c = (c = 0x20 \<or> c = 0x09 \<or> c = 0x0A \<or> c = 0x0D)"

definition skip_ws :: "jstr \<Rightarrow> jstr" where
  "skip_ws s = dropWhile is_ws s"

definition literal :: "jstr \<Rightarrow> jsval \<Rightarrow> jstr \<Rightarrow> (jsval \<times> jstr) option" where
  "literal w v s = (if take (length w) s = w then Some (v, drop (length w) s) else None)"

definition scalar :: "jstr \<Rightarrow> (jsval \<times> jstr) option" where
  "scalar s =
     (case s of
        [] \<Rightarrow> None
      | c # r \<Rightarrow>
          if c = 0x22 then map_option (\<lambda>(u, r'). (JStr u, r')) (parse_chars r)
          else if c = 0x74 then literal (js ''true'') (JBool True) s
          else if c = 0x66 then literal (js ''false'') (JBool False) s
          else if c = 0x6E then literal (js ''null'') JNull s
          else map_option (\<lambda>(x, r'). (JNum x, r')) (parse_number s))"

text \<open>
  \<open>parse_value\<close> reads one value after optional white space; \<open>parse_elements\<close> reads
  the elements of a non-empty array after its bracket, \<open>parse_members\<close> the members of
  a non-empty object after its brace. The comparisons of lengths make the recursion
  well-founded; \<open>parse_guards_hold\<close> below shows that they never fail.
\<close>

function parse_value :: "jstr \<Rightarrow> (jsval \<times> jstr) option"
  and parse_elements :: "jstr \<Rightarrow> (jsval list \<times> jstr) option"
  and parse_members :: "jstr \<Rightarrow> ((jstr \<times> jsval) list \<times> jstr) option"
where
  "parse_value s =
     (case skip_ws s of
        [] \<Rightarrow> None
      | c # r \<Rightarrow>
          if c = 0x5B then
            (case skip_ws r of
               [] \<Rightarrow> None
             | d # r' \<Rightarrow>
                 if d = 0x5D then Some (JArr [], r')
                 else map_option (\<lambda>(xs, r''). (JArr xs, r'')) (parse_elements r))
          else if c = 0x7B then
            (case skip_ws r of
               [] \<Rightarrow> None
             | d # r' \<Rightarrow>
                 if d = 0x7D then Some (JObj [], r')
                 else map_option (\<lambda>(ms, r''). (JObj (build_object ms), r'')) (parse_members r))
          else scalar (c # r))"
| "parse_elements s =
     (case parse_value s of
        None \<Rightarrow> None
      | Some (v, r) \<Rightarrow>
          (case skip_ws r of
             [] \<Rightarrow> None
           | c # r' \<Rightarrow>
               if c = 0x5D then Some ([v], r')
               else if c = 0x2C \<and> length r' < length s then
                 map_option (\<lambda>(xs, r''). (v # xs, r'')) (parse_elements r')
               else None))"
| "parse_members s =
     (case skip_ws s of
        [] \<Rightarrow> None
      | q # r0 \<Rightarrow>
          if q = 0x22 then
            (case parse_chars r0 of
               None \<Rightarrow> None
             | Some (k, r1) \<Rightarrow>
                 (case skip_ws r1 of
                    [] \<Rightarrow> None
                  | c # r2 \<Rightarrow>
                      if c = 0x3A \<and> length r2 < length s then
                        (case parse_value r2 of
                           None \<Rightarrow> None
                         | Some (v, r3) \<Rightarrow>
                             (case skip_ws r3 of
                                [] \<Rightarrow> None
                              | d # r4 \<Rightarrow>
                                  if d = 0x7D then Some ([(k, v)], r4)
                                  else if d = 0x2C \<and> length r4 < length s then
                                    map_option (\<lambda>(ms, r5). ((k, v) # ms, r5)) (parse_members r4)
                                  else None))
                      else None))
          else None)"
  by pat_completeness auto
termination
proof (relation "measure (\<lambda>x. case x of
          Inl s \<Rightarrow> 2 * length s
        | Inr (Inl s) \<Rightarrow> 2 * length s + 1
        | Inr (Inr s) \<Rightarrow> 2 * length s + 1)", goal_cases)
  case 1
  show ?case by simp
next
  case (2 s c r d r')
  have "length (skip_ws s) \<le> length s"
    by (simp add: skip_ws_def length_dropWhile_le)
  with 2 show ?case by simp
next
  case (3 s c r d r')
  have "length (skip_ws s) \<le> length s"
    by (simp add: skip_ws_def length_dropWhile_le)
  with 3 show ?case by simp
qed simp_all

declare parse_value.simps [simp del]
declare parse_elements.simps [simp del]
declare parse_members.simps [simp del]

text \<open>\<open>None\<close> is the SyntaxError that \<open>JSON.parse\<close> throws.\<close>

definition JSON_parse :: "jstr \<Rightarrow> jsval option" where
  "JSON_parse s =
     (case parse_value s of
        None \<Rightarrow> None
      | Some (v, r) \<Rightarrow> if skip_ws r = [] then Some v else None)"

subsection \<open>\<open>JSON.stringify\<close>\<close>

fun join_with :: "16 word \<Rightarrow> jstr list \<Rightarrow> jstr" where
  "join_with c [] = []"
| "join_with c [x] = x"
| "join_with c (x # y # ys) = x @ c # join_with c (y # ys)"

text \<open>
  A non-finite number is written \<open>null\<close>. No value that \<open>JSON.parse\<close> returns is
  callable, so an own \<open>toJSON\<close> key has no effect.
\<close>

fun JSON_stringify :: "jsval \<Rightarrow> jstr" where
  "JSON_stringify JNull = js ''null''"
| "JSON_stringify (JBool b) = js (if b then ''true'' else ''false'')"
| "JSON_stringify (JNum x) =
     (case x of Finite m e \<Rightarrow> number_to_string x | Infinite neg \<Rightarrow> js ''null'')"
| "JSON_stringify (JStr u) = QuoteJSONString u"
| "JSON_stringify (JArr xs) = 0x5B # join_with 0x2C (map JSON_stringify xs) @ [0x5D]"
| "JSON_stringify (JObj ps) =
     0x7B # join_with 0x2C
              (map (\<lambda>p. QuoteJSONString (fst p) @ 0x3A # JSON_stringify (snd p)) ps) @ [0x7D]"

section \<open>The operations of the language that the handler uses\<close>

datatype js_error = SyntaxError | TypeError | RangeError | IOError

text \<open>
  Reading a property of \<open>null\<close> throws. The handler reads \<open>id\<close>, \<open>hypothesisId\<close>,
  \<open>location\<close> and \<open>message\<close>: an array, a string, a number and a boolean have no
  property of these names, neither of their own nor inherited, so the read is
  \<open>undefined\<close> (\<open>None\<close>).
\<close>

definition Get :: "jsval \<Rightarrow> jstr \<Rightarrow> js_error + jsval option" where
  "Get d k =
     (case d of
        JNull \<Rightarrow> Inl TypeError
      | JObj ps \<Rightarrow> Inr (map_of ps k)
      | _ \<Rightarrow> Inr None)"

text \<open>
  The script is not in strict mode: an assignment to a property of a string, number
  or boolean does nothing. On an array it creates a property that is no array index,
  which \<open>JSON.stringify\<close> does not write and the handler does not read.
\<close>

definition Put :: "jsval \<Rightarrow> jstr \<Rightarrow> jsval \<Rightarrow> js_error + jsval" where
  "Put d k v =
     (case d of
        JNull \<Rightarrow> Inl TypeError
      | JObj ps \<Rightarrow> Inr (JObj (obj_set k v ps))
      | _ \<Rightarrow> Inr d)"

fun ToBoolean :: "jsval option \<Rightarrow> bool" where
  "ToBoolean None = False"
| "ToBoolean (Some JNull) = False"
| "ToBoolean (Some (JBool b)) = b"
| "ToBoolean (Some (JNum (Finite m e))) = (m \<noteq> 0)"
| "ToBoolean (Some (JNum (Infinite neg))) = True"
| "ToBoolean (Some (JStr u)) = (u \<noteq> [])"
| "ToBoolean (Some (JArr xs)) = True"
| "ToBoolean (Some (JObj ps)) = True"

text \<open>
  \<open>ToString\<close> of a value, \<open>None\<close> when it throws a TypeError. An object with an own
  \<open>toString\<close> key has a \<open>toString\<close> that cannot be called, and its \<open>valueOf\<close>, own
  or inherited, yields no primitive. An array joins its elements, \<open>null\<close> as the
  empty string.
\<close>

fun ToString :: "jsval \<Rightarrow> jstr option" where
  "ToString JNull = Some (js ''null'')"
| "ToString (JBool b) = Some (js (if b then ''true'' else ''false''))"
| "ToString (JNum x) = Some (number_to_string x)"
| "ToString (JStr u) = Some u"
| "ToString (JArr xs) =
     map_option (join_with 0x2C)
       (those (map (\<lambda>x. if x = JNull then Some [] else ToString x) xs))"
| "ToString (JObj ps) =
     (if map_of ps (js ''toString'') = None then Some (js ''[object Object]'') else None)"

text \<open>
  \<open>JSON.stringify\<close> calls itself for every array and object inside the value, and the
  \<open>join\<close> of an array joins the arrays in it: one call inside the other, on a stack
  that is finite. A value nested more deeply than the stack has room for makes the
  call throw a RangeError. How deep that is depends on the platform and on what is on
  the stack at the call; it is the \<open>lim\<close> of the two definitions below.
\<close>

fun depth :: "jsval \<Rightarrow> nat" where
  "depth (JArr xs) = Suc (foldr max (map depth xs) 0)"
| "depth (JObj ps) = Suc (foldr max (map (\<lambda>p. depth (snd p)) ps) 0)"
| "depth v = 0"

fun array_depth :: "jsval \<Rightarrow> nat" where
  "array_depth (JArr xs) = Suc (foldr max (map array_depth xs) 0)"
| "array_depth v = 0"

definition stringify_within :: "nat \<Rightarrow> jsval \<Rightarrow> js_error + jstr" where
  "stringify_within lim v = (if lim < depth v then Inl RangeError else Inr (JSON_stringify v))"

definition template :: "nat \<Rightarrow> jsval option \<Rightarrow> js_error + jstr" where
  "template lim x =
     (case x of
        None \<Rightarrow> Inr (js ''undefined'')
      | Some v \<Rightarrow>
          if lim < array_depth v then Inl RangeError
          else (case ToString v of None \<Rightarrow> Inl TypeError | Some u \<Rightarrow> Inr u))"

section \<open>The server\<close>

text \<open>
  The state of the process is the log file (\<open>None\<close> when it does not exist) and the
  counter. What a request reads from outside the program is its \<open>env\<close>: the two
  readings of the clock, the characters taken from \<open>Math.random\<close>, whether the
  file system call of this request fails, and the nesting that the stack has room for
  in \<open>JSON.stringify\<close> and in \<open>join\<close>. A failing call throws and leaves the file as it
  was. The console is not part of the state; the text written to it is computed,
  because computing it can throw.
\<close>

record server =
  log_file :: "jstr option"
  logCount :: nat

record request =
  http_method :: jstr
  url :: jstr
  body :: jstr

record response =
  statusCode :: nat
  headers :: "(jstr \<times> jstr) list"
  content :: jstr

record env =
  now_id :: nat
  now_stamp :: nat
  random36 :: jstr
  storage_error :: bool
  stringify_depth :: nat
  join_depth :: nat

datatype outcome = Responded response server | Crashed

definition existsSync :: "jstr option \<Rightarrow> bool" where
  "existsSync f = (f \<noteq> None)"

definition readFileSync :: "env \<Rightarrow> jstr option \<Rightarrow> js_error + jstr" where
  "readFileSync ev f =
     (if storage_error ev then Inl IOError
      else case f of None \<Rightarrow> Inl IOError | Some c \<Rightarrow> Inr c)"

definition writeFileSync :: "env \<Rightarrow> jstr \<Rightarrow> js_error + jstr option" where
  "writeFileSync ev d = (if storage_error ev then Inl IOError else Inr (Some d))"

definition appendFileSync :: "env \<Rightarrow> jstr option \<Rightarrow> jstr \<Rightarrow> js_error + jstr option" where
  "appendFileSync ev f d =
     (if storage_error ev then Inl IOError
      else Inr (Some ((case f of None \<Rightarrow> [] | Some c \<Rightarrow> c) @ d)))"

definition number_of_nat :: "nat \<Rightarrow> jsnum" where
  "number_of_nat n = to_double (int n) 0"

text \<open>The three \<open>setHeader\<close> calls come first, so every response has these headers.\<close>

definition cors_headers :: "(jstr \<times> jstr) list" where
  "cors_headers =
     [(js ''Access-Control-Allow-Origin'', js ''*''),
      (js ''Access-Control-Allow-Methods'', js ''GET, POST, OPTIONS''),
      (js ''Access-Control-Allow-Headers'', js ''Content-Type'')]"

definition reply :: "nat \<Rightarrow> (jstr \<times> jstr) list \<Rightarrow> jstr \<Rightarrow> response" where
  "reply code hs b = \<lparr>statusCode = code, headers = cors_headers @ hs, content = b\<rparr>"

definition new_id :: "env \<Rightarrow> jstr" where
  "new_id ev =
     js ''log_'' @ number_to_string (number_of_nat (now_id ev)) @ js ''_'' @ random36 ev"

text \<open>Lines 96 and 97: the line for the console.\<close>

definition echo :: "nat \<Rightarrow> nat \<Rightarrow> jsval \<Rightarrow> js_error + jstr" where
  "echo lim n d =
     (case Get d (js ''hypothesisId'') of
        Inl e \<Rightarrow> Inl e
      | Inr h \<Rightarrow>
          (case (if ToBoolean h
                 then (case template lim h of
                         Inl e \<Rightarrow> Inl e
                       | Inr t \<Rightarrow> Inr (js ''['' @ t @ js '']''))
                 else Inr []) of
             Inl e \<Rightarrow> Inl e
           | Inr hyp \<Rightarrow>
               (case Get d (js ''location'') of
                  Inl e \<Rightarrow> Inl e
                | Inr l \<Rightarrow>
                    (case template lim l of
                       Inl e \<Rightarrow> Inl e
                     | Inr lt \<Rightarrow>
                         (case Get d (js ''message'') of
                            Inl e \<Rightarrow> Inl e
                          | Inr m \<Rightarrow>
                              (case template lim m of
                                 Inl e \<Rightarrow> Inl e
                               | Inr mt \<Rightarrow>
                                   Inr (js ''['' @ number_to_string (number_of_nat n) @ js ''] ''
                                        @ hyp @ js '' '' @ lt @ js '': '' @ mt)))))))"

text \<open>
  Lines 88 and 89: \<open>data.id = data.id || `log_...`\<close> and
  \<open>data.serverTimestamp = Date.now()\<close>.
\<close>

definition add_metadata :: "env \<Rightarrow> jsval \<Rightarrow> js_error + jsval" where
  "add_metadata ev d =
     (case Get d (js ''id'') of
        Inl e \<Rightarrow> Inl e
      | Inr old \<Rightarrow>
          (case Put d (js ''id'')
                  (case old of
                     None \<Rightarrow> JStr (new_id ev)
                   | Some v \<Rightarrow> if ToBoolean old then v else JStr (new_id ev)) of
             Inl e \<Rightarrow> Inl e
           | Inr d1 \<Rightarrow> Put d1 (js ''serverTimestamp'') (JNum (number_of_nat (now_stamp ev)))))"

text \<open>
  The \<open>try\<close> block of lines 85 to 100: the exception it ends with, if any, and the
  state it has reached by then. The argument of \<open>appendFileSync\<close> is computed before
  the call: when \<open>JSON.stringify\<close> throws, nothing is appended.
\<close>

definition try_ingest :: "env \<Rightarrow> server \<Rightarrow> jstr \<Rightarrow> js_error option \<times> server" where
  "try_ingest ev sv b =
     (case JSON_parse b of
        None \<Rightarrow> (Some SyntaxError, sv)
      | Some d \<Rightarrow>
          (case add_metadata ev d of
             Inl e \<Rightarrow> (Some e, sv)
           | Inr d2 \<Rightarrow>
               (case stringify_within (stringify_depth ev) d2 of
                  Inl e \<Rightarrow> (Some e, sv)
                | Inr line \<Rightarrow>
                    (case appendFileSync ev (log_file sv) (line @ [0x0A]) of
                       Inl e \<Rightarrow> (Some e, sv)
                     | Inr f \<Rightarrow>
                         (case echo (join_depth ev) (logCount sv + 1) d2 of
                            Inl e \<Rightarrow> (Some e, sv\<lparr>log_file := f, logCount := logCount sv + 1\<rparr>)
                          | Inr shown \<Rightarrow>
                              (None, sv\<lparr>log_file := f, logCount := logCount sv + 1\<rparr>))))))"

definition on_end :: "env \<Rightarrow> server \<Rightarrow> jstr \<Rightarrow> outcome" where
  "on_end ev sv b =
     (case try_ingest ev sv b of
        (None, sv') \<Rightarrow> Responded (reply 200 [] (js ''ok'')) sv'
      | (Some e, sv') \<Rightarrow> Responded (reply 400 [] (js ''Invalid JSON'')) sv')"

text \<open>
  The request listener, in the order of the source. \<open>PORT\<close> is the configured port.
  The write of \<open>/clear\<close> is in no \<open>try\<close>: when it throws, nothing catches the
  exception and the process ends. The object of \<open>/health\<close> has one level, for which
  the stack has room.
\<close>

definition handle :: "nat \<Rightarrow> env \<Rightarrow> server \<Rightarrow> request \<Rightarrow> outcome" where
  "handle PORT ev sv req =
     (if http_method req = js ''OPTIONS'' then Responded (reply 204 [] []) sv
      else if url req = js ''/health'' then
        Responded
          (reply 200 [(js ''Content-Type'', js ''application/json'')]
             (JSON_stringify
                (JObj [(js ''status'', JStr (js ''ok'')),
                       (js ''logCount'', JNum (number_of_nat (logCount sv))),
                       (js ''port'', JNum (number_of_nat PORT))])))
          sv
      else if url req = js ''/logs'' \<and> http_method req = js ''GET'' then
        (case (if existsSync (log_file sv) then readFileSync ev (log_file sv) else Inr []) of
           Inr logs \<Rightarrow>
             Responded (reply 200 [(js ''Content-Type'', js ''application/x-ndjson'')] logs) sv
         | Inl e \<Rightarrow> Responded (reply 500 [] (js ''Error reading logs'')) sv)
      else if url req = js ''/clear'' \<and> http_method req = js ''POST'' then
        (case writeFileSync ev [] of
           Inl e \<Rightarrow> Crashed
         | Inr f \<Rightarrow>
             Responded (reply 200 [] (js ''Logs cleared'')) (sv\<lparr>log_file := f, logCount := 0\<rparr>))
      else if url req = js ''/debug'' \<and> http_method req = js ''POST'' then on_end ev sv (body req)
      else Responded (reply 404 [] (js ''Not found'')) sv)"

text \<open>
  What Node does with a request before the listener runs. The listener is the
  \<open>request\<close> handler of \<open>http.createServer\<close>; Node's HTTP parser reads the request
  line first. A method that is not one of \<open>methods\<close> (the platform's \<open>http.METHODS\<close>) is
  a parse error, which Node answers itself with \<open>400 Bad Request\<close> and
  \<open>Connection: close\<close>: the listener is not called, so none of its \<open>setHeader\<close> calls
  happens. A \<open>CONNECT\<close> request is not given to the \<open>request\<close> handler either, and this
  server has no \<open>connect\<close> handler: Node closes the connection without a response.
\<close>

datatype served = Listener outcome | Refused response | Closed

definition dispatch :: "jstr list \<Rightarrow> nat \<Rightarrow> env \<Rightarrow> server \<Rightarrow> request \<Rightarrow> served" where
  "dispatch methods PORT ev sv req =
     (if http_method req \<notin> set methods then
        Refused \<lparr>statusCode = 400, headers = [(js ''Connection'', js ''close'')], content = []\<rparr>
      else if http_method req = js ''CONNECT'' then Closed
      else Listener (handle PORT ev sv req))"

text \<open>The methods of \<open>http.METHODS\<close> in Node 20.\<close>

definition METHODS :: "jstr list" where
  "METHODS =
     map js
       [''ACL'', ''BIND'', ''CHECKOUT'', ''CONNECT'', ''COPY'', ''DELETE'', ''GET'', ''HEAD'',
        ''LINK'', ''LOCK'', ''M-SEARCH'', ''MERGE'', ''MKACTIVITY'', ''MKCALENDAR'', ''MKCOL'',
        ''MOVE'', ''NOTIFY'', ''OPTIONS'', ''PATCH'', ''POST'', ''PROPFIND'', ''PROPPATCH'',
        ''PURGE'', ''PUT'', ''REBIND'', ''REPORT'', ''SEARCH'', ''SOURCE'', ''SUBSCRIBE'', ''TRACE'',
        ''UNBIND'', ''UNLINK'', ''UNLOCK'', ''UNSUBSCRIBE'']"

text \<open>
  Lines 25 to 33: the log file is written empty before the server exists. A write
  that throws here ends the process (\<open>None\<close>).
\<close>

definition startup :: "env \<Rightarrow> jstr option \<Rightarrow> server option" where
  "startup ev old =
     (case writeFileSync ev [] of
        Inl e \<Rightarrow> None
      | Inr f \<Rightarrow> Some \<lparr>log_file = f, logCount = 0\<rparr>)"

text \<open>
  The requests served one after the other, each with its environment: the responses
  and the last state, or \<open>None\<close> when the process has ended.
\<close>

fun serve :: "nat \<Rightarrow> server \<Rightarrow> (env \<times> request) list \<Rightarrow> (response list \<times> server) option" where
  "serve PORT sv [] = Some ([], sv)"
| "serve PORT sv ((ev, req) # rest) =
     (case handle PORT ev sv req of
        Crashed \<Rightarrow> None
      | Responded r sv' \<Rightarrow>
          (case serve PORT sv' rest of
             None \<Rightarrow> None
           | Some (rs, sv'') \<Rightarrow> Some (r # rs, sv'')))"

section \<open>Well-formed values\<close>

text \<open>
  What holds of every value that \<open>JSON.parse\<close> returns: a finite number has the digits
  of the binary64 it stands for (a literal with these digits parses to it), and the
  keys of an object are distinct and in property order. \<open>as_written\<close> is the value with every non-finite number replaced
  by \<open>null\<close>, which is how \<open>JSON.stringify\<close> writes it.
\<close>

fun well_formed_num :: "jsnum \<Rightarrow> bool" where
  "well_formed_num (Finite m e) = (to_double m e = Finite m e)"
| "well_formed_num (Infinite neg) = True"

definition canonical :: "(jstr \<times> jsval) list \<Rightarrow> bool" where
  "canonical ps =
     sorted_wrt (\<lambda>p q. fst p \<noteq> fst q \<and> \<not> goes_before (fst q) (fst p)) ps"

fun well_formed :: "jsval \<Rightarrow> bool" where
  "well_formed (JNum x) = well_formed_num x"
| "well_formed (JArr xs) = list_all well_formed xs"
| "well_formed (JObj ps) = (canonical ps \<and> list_all (\<lambda>p. well_formed (snd p)) ps)"
| "well_formed v = True"

fun as_written :: "jsval \<Rightarrow> jsval" where
  "as_written (JNum x) = (case x of Finite m e \<Rightarrow> JNum x | Infinite neg \<Rightarrow> JNull)"
| "as_written (JArr xs) = JArr (map as_written xs)"
| "as_written (JObj ps) = JObj (map (\<lambda>p. (fst p, as_written (snd p))) ps)"
| "as_written v = v"

text \<open>The text after a value does not continue a number.\<close>

definition ends_token :: "jstr \<Rightarrow> bool" where
  "ends_token r =
     (case r of [] \<Rightarrow> True | c # r' \<Rightarrow> \<not> is_digit c \<and> c \<noteq> 0x2E \<and> c \<noteq> 0x65 \<and> c \<noteq> 0x45)"

text \<open>The first unit of the text of a value is no white space and no closing bracket.\<close>

definition starts_value :: "jstr \<Rightarrow> bool" where
  "starts_value s =
     (case s of
        [] \<Rightarrow> False
      | c # r \<Rightarrow> \<not> is_ws c \<and> c \<noteq> 0x5D \<and> c \<noteq> 0x7D \<and> c \<noteq> 0x2C)"

text \<open>The lines of a text: the pieces between its line feeds.\<close>

fun split_lines :: "jstr \<Rightarrow> jstr list" where
  "split_lines [] = [[]]"
| "split_lines (c # cs) =
     (if c = 0x0A then [] # split_lines cs
      else (case split_lines cs of [] \<Rightarrow> [[c]] | l # ls \<Rightarrow> (c # l) # ls))"

text \<open>
  What lines 88 and 89 make of an object: its \<open>id\<close> is the caller's when that is
  truthy and a new one otherwise, and its \<open>serverTimestamp\<close> is the clock's.
\<close>

definition id_value :: "env \<Rightarrow> (jstr \<times> jsval) list \<Rightarrow> jsval" where
  "id_value ev ps =
     (case map_of ps (js ''id'') of
        None \<Rightarrow> JStr (new_id ev)
      | Some v \<Rightarrow> if ToBoolean (Some v) then v else JStr (new_id ev))"

definition with_metadata :: "env \<Rightarrow> (jstr \<times> jsval) list \<Rightarrow> (jstr \<times> jsval) list" where
  "with_metadata ev ps =
     obj_set (js ''serverTimestamp'') (JNum (number_of_nat (now_stamp ev)))
       (obj_set (js ''id'') (id_value ev ps) ps)"

text \<open>The text of a log: one serialised value per line, each line ended by a line feed.\<close>

definition log_of :: "jsval list \<Rightarrow> jstr" where
  "log_of vs = concat (map (\<lambda>v. JSON_stringify v @ [0x0A]) vs)"

definition contents :: "server \<Rightarrow> jstr" where
  "contents sv = (case log_file sv of None \<Rightarrow> [] | Some c \<Rightarrow> c)"

subsection \<open>Sample environments and states\<close>

definition ev_ok :: env where
  "ev_ok = \<lparr>now_id = 1700000000123, now_stamp = 1700000000124, random36 = js ''k3x9'',
            storage_error = False, stringify_depth = 1000, join_depth = 1000\<rparr>"

definition ev_fail :: env where
  "ev_fail = \<lparr>now_id = 1700000000123, now_stamp = 1700000000124, random36 = js ''k3x9'',
              storage_error = True, stringify_depth = 1000, join_depth = 1000\<rparr>"

definition sv_empty :: server where
  "sv_empty = \<lparr>log_file = Some [], logCount = 0\<rparr>"

definition sv_two :: server where
  "sv_two = \<lparr>log_file = Some (js ''{}'' @ [0x0A] @ js ''[1]'' @ [0x0A]), logCount = 2\<rparr>"


section \<open>Numbers: the text of a number parses back to it\<close>

lemma unat_digit_of: "d < 10 \<Longrightarrow> unat (digit_of d) = 48 + d"
  unfolding digit_of_def by (simp only: unat_of_nat) simp

lemma digit_unit:
  assumes "d < 10"
  shows "is_digit (digit_of d)" and "digit_val (digit_of d) = d"
    and "digit_of d = 0x30 \<longleftrightarrow> d = 0"
proof -
  note u = unat_digit_of [OF assms]
  show "is_digit (digit_of d)"
    using assms unfolding is_digit_def word_le_nat_alt u by simp
  show "digit_val (digit_of d) = d"
    unfolding digit_val_def u by simp
  have "digit_of d = 0x30 \<longleftrightarrow> unat (digit_of d) = unat (0x30 :: 16 word)"
    by (simp only: word_unat_eq_iff)
  then show "digit_of d = 0x30 \<longleftrightarrow> d = 0"
    unfolding u by simp
qed

lemma digits_val_snoc: "digits_val (ds @ [c]) = 10 * digits_val ds + digit_val c"
  by (simp add: digits_val_def)

lemma show_nat_digits: "list_all is_digit (show_nat n)"
proof (induction n rule: show_nat.induct)
  case (1 n)
  show ?case
  proof (cases "n < 10")
    case True
    then show ?thesis by (subst show_nat.simps) (simp add: digit_unit)
  next
    case False
    with 1 show ?thesis by (subst show_nat.simps) (simp add: digit_unit)
  qed
qed

lemma show_nat_value: "digits_val (show_nat n) = n"
proof (induction n rule: show_nat.induct)
  case (1 n)
  show ?case
  proof (cases "n < 10")
    case True
    then show ?thesis by (subst show_nat.simps) (simp add: digit_unit digits_val_def)
  next
    case False
    with 1 show ?thesis by (subst show_nat.simps) (simp add: digit_unit digits_val_snoc)
  qed
qed

lemma show_nat_nonempty: "show_nat n \<noteq> []"
  by (subst show_nat.simps) simp

lemma show_nat_hd: "0 < n \<Longrightarrow> hd (show_nat n) \<noteq> 0x30"
proof (induction n rule: show_nat.induct)
  case (1 n)
  show ?case
  proof (cases "n < 10")
    case True
    with 1(2) show ?thesis by (subst show_nat.simps) (simp add: digit_unit)
  next
    case False
    then have "0 < n div 10" by simp
    with 1 False show ?thesis by (subst show_nat.simps) (simp add: show_nat_nonempty)
  qed
qed


lemma scan_digits_append:
  assumes "list_all is_digit ds" and "r = [] \<or> \<not> is_digit (hd r)"
  shows "scan_digits (ds @ r) = (ds, r)"
proof -
  have t: "takeWhile is_digit r = []" and d: "dropWhile is_digit r = r"
    using assms(2) by (cases r; simp)+
  have "takeWhile is_digit (ds @ r) = ds @ takeWhile is_digit r"
    using assms(1) by (intro takeWhile_append2) (simp add: list_all_iff)
  moreover have "dropWhile is_digit (ds @ r) = dropWhile is_digit r"
    using assms(1) by (intro dropWhile_append2) (simp add: list_all_iff)
  ultimately show ?thesis
    by (simp add: scan_digits_def t d)
qed

lemma digits_val_append:
  "digits_val (a @ b) = digits_val a * 10 ^ length b + digits_val b"
proof (induction b rule: rev_induct)
  case Nil
  show ?case by (simp add: digits_val_def)
next
  case (snoc c b)
  have "digits_val (a @ b @ [c]) = 10 * digits_val (a @ b) + digit_val c"
    using digits_val_snoc [of "a @ b" c] by simp
  with snoc show ?case
    by (simp add: digits_val_snoc algebra_simps)
qed

lemma digit_val_zero: "digit_val 0x30 = 0"
  by (simp add: digit_val_def)

lemma digits_val_zeros: "digits_val (replicate j 0x30) = 0"
proof (induction j)
  case 0
  show ?case by (simp add: digits_val_def)
next
  case (Suc j)
  have "replicate (Suc j) (0x30 :: 16 word) = replicate j 0x30 @ [0x30]"
    by (simp add: replicate_append_same)
  then have "digits_val (replicate (Suc j) 0x30) = 10 * digits_val (replicate j 0x30) + digit_val 0x30"
    by (simp only: digits_val_snoc)
  with Suc show ?case by (simp add: digit_val_zero)
qed

lemma is_digit_zero: "is_digit 0x30"
  by (simp add: is_digit_def)

lemma normalise_zero: "normalise 0 e = (0, 0)"
  by (simp add: normalise.simps)

lemma normalise_normal: "m \<noteq> 0 \<Longrightarrow> m mod 10 \<noteq> 0 \<Longrightarrow> normalise m e = (m, e)"
  by (simp add: normalise.simps)

lemma normalise_result:
  "normalise m e = (m', e') \<Longrightarrow> (if m' = 0 then e' = 0 else m' mod 10 \<noteq> 0)"
proof (induction m e rule: normalise.induct)
  case (1 m e)
  show ?case
  proof (cases "m = 0")
    case True
    with 1(2) show ?thesis by (simp add: normalise.simps)
  next
    case False
    show ?thesis
    proof (cases "m mod 10 = 0")
      case True
      with False 1(2) have "normalise (m div 10) (e + 1) = (m', e')"
        by (subst (asm) normalise.simps) simp
      with 1(1) False True show ?thesis by simp
    next
      case nz: False
      with False 1(2) show ?thesis by (subst (asm) normalise.simps) auto
    qed
  qed
qed

lemma normalise_idem: "normalise m e = (m', e') \<Longrightarrow> normalise m' e' = (m', e')"
  using normalise_result [of m e m' e']
  by (cases "m' = 0") (simp_all add: normalise_zero normalise_normal)

lemma normalise_nonneg: "0 \<le> m \<Longrightarrow> normalise m e = (m', e') \<Longrightarrow> 0 \<le> m'"
proof (induction m e rule: normalise.induct)
  case (1 m e)
  show ?case
  proof (cases "m = 0 \<or> m mod 10 \<noteq> 0")
    case True
    with 1(2,3) show ?thesis by (subst (asm) normalise.simps) (auto split: if_splits)
  next
    case False
    with 1(3) have "normalise (m div 10) (e + 1) = (m', e')"
      by (subst (asm) normalise.simps) simp
    moreover have "0 \<le> m div 10" using 1(2) by simp
    ultimately show ?thesis using 1(1) False by simp
  qed
qed

lemma round_half_even_nonneg: "0 \<le> a \<Longrightarrow> 0 < b \<Longrightarrow> 0 \<le> round_half_even a b"
  by (simp add: round_half_even_def Let_def pos_imp_zdiv_nonneg_iff)

lemma round64_zero: "round64 0 e = Zero"
  by (simp add: round64_def normalise_zero Let_def round_half_even_def)

lemma round64_nonneg:
  assumes "round64 m e = Binary f x" and "0 \<le> m"
  shows "0 \<le> f"
proof -
  obtain m' e' where n: "normalise m e = (m', e')"
    by (cases "normalise m e")
  have m': "0 \<le> m'"
    using assms(2) n by (rule normalise_nonneg)
  define a where "a = (if 0 \<le> e' then m' * 10 ^ nat e' else m')"
  define b :: int where "b = (if 0 \<le> e' then 1 else 10 ^ nat (- e'))"
  define y where "y = max (floor_log2 a b - 52) (- 1074)"
  define g where "g = (if 0 \<le> y then round_half_even a (b * 2 ^ nat y)
                 else round_half_even (a * 2 ^ nat (- y)) b)"
  have a: "0 \<le> a" and b: "0 < b"
    using m' by (simp_all add: a_def b_def)
  have g: "0 \<le> g"
    unfolding g_def using a b by (simp add: round_half_even_nonneg)
  have "round64 m e = (if g = 0 then Zero
           else if g = 2 ^ 53 then (if 971 < y + 1 then Overflow else Binary (2 ^ 52) (y + 1))
           else if 971 < y then Overflow
           else Binary g y)"
    unfolding round64_def n g_def y_def a_def b_def by (simp add: Let_def)
  with assms(1) g show ?thesis
    by (auto split: if_splits)
qed

lemma round64_normalise: "normalise m e = (m', e') \<Longrightarrow> round64 m' e' = round64 m e"
  by (simp add: round64_def normalise_idem)

lemma candidates_nonneg:
  assumes "(s, n) \<in> set (candidates mv ev k)" and "0 \<le> mv"
  shows "0 \<le> s"
  using assms by (auto simp: candidates_def Let_def pos_imp_zdiv_nonneg_iff split: if_splits)

lemma find_SomeD: "find P xs = Some x \<Longrightarrow> x \<in> set xs \<and> P x"
  by (induction xs) (auto split: if_splits)

lemma shortest_result:
  assumes "shortest f x = Some (s, n)" and "0 \<le> f"
  shows "round64 s n = Binary f x" and "0 \<le> s"
proof -
  obtain mv ev where d: "decimal_of f x = (mv, ev)"
    by (cases "decimal_of f x")
  have mv: "0 \<le> mv"
    using d assms(2) by (auto simp: decimal_of_def split: if_splits intro: normalise_nonneg [rotated])
  from assms(1) obtain ks where
    "find (\<lambda>(s, n). round64 s n = Binary f x) (concat (map (candidates mv ev) ks)) = Some (s, n)"
    unfolding shortest_def d prod.case by blast
  from find_SomeD [OF this]
  have c: "(s, n) \<in> set (concat (map (candidates mv ev) ks))" and "round64 s n = Binary f x"
    by simp_all
  then show "round64 s n = Binary f x"
    by simp
  from c obtain k where "(s, n) \<in> set (candidates mv ev k)"
    by auto
  then show "0 \<le> s"
    using mv by (rule candidates_nonneg)
qed

lemma to_double_zero: "to_double 0 e = Finite 0 0"
  by (simp add: to_double_def normalise_zero round64_zero)

lemma normalise_shift: "m \<noteq> 0 \<Longrightarrow> normalise (m * 10 ^ j) e = normalise m (e + int j)"
proof (induction j arbitrary: e)
  case 0
  show ?case by simp
next
  case (Suc j)
  have "normalise (m * 10 ^ Suc j) e = normalise (m * 10 ^ j) (e + 1)"
    using Suc.prems by (subst normalise.simps) simp
  with Suc show ?case by (simp add: algebra_simps)
qed

lemma to_double_shift: "m \<noteq> 0 \<Longrightarrow> to_double (m * 10 ^ j) (e - int j) = to_double m e"
  by (simp add: to_double_def normalise_shift)

lemma to_double_well_formed:
  assumes "well_formed_num (Finite m e)" and "m \<noteq> 0"
  shows "to_double (m * 10 ^ j) (e - int j) = Finite m e"
  using assms by (simp add: to_double_shift)

lemma ends_tokenD:
  assumes "ends_token r"
  shows "r = [] \<or> \<not> is_digit (hd r)" and "r = [] \<or> hd r \<noteq> 0x2E"
    and "r = [] \<or> (hd r \<noteq> 0x65 \<and> hd r \<noteq> 0x45)"
  using assms by (cases r; simp add: ends_token_def)+

lemma scan_int_digits:
  assumes "list_all is_digit ds" and "ds \<noteq> []" and "hd ds \<noteq> 0x30"
    and "r = [] \<or> \<not> is_digit (hd r)"
  shows "scan_int (ds @ r) = Some (ds, r)"
proof -
  obtain c cs where ds: "ds = c # cs"
    using assms(2) by (cases ds) auto
  have "scan_int (ds @ r) = Some (scan_digits (ds @ r))"
    using assms(1,3) by (simp add: scan_int_def ds)
  then show ?thesis
    using assms(1,4) by (simp add: scan_digits_append)
qed

lemma scan_int_zero: "scan_int (0x30 # r) = Some ([0x30], r)"
  by (simp add: scan_int_def)

lemma scan_frac_dot:
  assumes "list_all is_digit ds" and "ds \<noteq> []" and "r = [] \<or> \<not> is_digit (hd r)"
  shows "scan_frac (0x2E # ds @ r) = Some (ds, r)"
  using assms by (simp add: scan_frac_def scan_digits_append)

lemma scan_frac_none: "r = [] \<or> hd r \<noteq> 0x2E \<Longrightarrow> scan_frac r = Some ([], r)"
  by (cases r) (auto simp: scan_frac_def)

lemma scan_exp_none: "r = [] \<or> (hd r \<noteq> 0x65 \<and> hd r \<noteq> 0x45) \<Longrightarrow> scan_exp r = Some (0, r)"
  by (cases r) (auto simp: scan_exp_def)

lemma scan_exp_some:
  assumes "r = [] \<or> \<not> is_digit (hd r)"
  shows "scan_exp (0x65 # (if x < 0 then 0x2D else 0x2B) # show_nat (nat \<bar>x\<bar>) @ r) = Some (x, r)"
proof -
  have sd: "scan_digits (show_nat i @ r) = (show_nat i, r)" for i
    using assms by (simp add: scan_digits_append show_nat_digits)
  show ?thesis
  proof (cases "x < 0")
    case True
    then show ?thesis
      by (simp add: scan_exp_def scan_sign_def sd show_nat_nonempty show_nat_value)
  next
    case False
    then show ?thesis
      by (simp add: scan_exp_def scan_sign_def sd show_nat_nonempty show_nat_value)
  qed
qed

lemma parse_number_pos:
  assumes "s \<noteq> []" and "hd s \<noteq> 0x2D"
    and "scan_int s = Some (ip, s2)" and "scan_frac s2 = Some (fp, s3)"
    and "scan_exp s3 = Some (ex, s4)"
  shows "parse_number s =
    Some (to_double (int (digits_val (ip @ fp))) (ex - int (length fp)), s4)"
  using assms by (cases s) (simp_all add: parse_number_def)

lemma parse_number_neg:
  assumes "scan_int s = Some (ip, s2)" and "scan_frac s2 = Some (fp, s3)"
    and "scan_exp s3 = Some (ex, s4)"
  shows "parse_number (0x2D # s) =
    Some (to_double (- int (digits_val (ip @ fp))) (ex - int (length fp)), s4)"
  using assms by (simp add: parse_number_def)

lemma number_to_string_digits:
  "m \<noteq> 0 \<Longrightarrow> number_to_string (Finite m e) =
     (if m < 0 then 0x2D # digits_text (nat \<bar>m\<bar>) e else digits_text (nat \<bar>m\<bar>) e)"
  by (simp add: number_to_string_def)

lemma digits_text_scan:
  assumes mm: "0 < mm" and rest: "ends_token rest"
  shows "\<exists>ip fp ex s2 s3 j.
      scan_int (digits_text mm e @ rest) = Some (ip, s2) \<and> scan_frac s2 = Some (fp, s3) \<and>
      scan_exp s3 = Some (ex, rest) \<and> digits_val (ip @ fp) = mm * 10 ^ j \<and>
      ex - int (length fp) = e - int j"
proof -
  define s where "s = show_nat mm"
  define k where "k = int (length s)"
  define n where "n = k + e"
  have dig: "list_all is_digit s" and ne: "s \<noteq> []" and hd0: "hd s \<noteq> 0x30"
    and val: "digits_val s = mm"
    using mm by (simp_all add: s_def show_nat_digits show_nat_nonempty show_nat_hd show_nat_value)
  have kpos: "0 < k"
    using ne by (simp add: k_def)
  note r = ends_tokenD [OF rest]
  consider (int) "k \<le> n \<and> n \<le> 21"
    | (fixed) "\<not> (k \<le> n \<and> n \<le> 21)" "0 < n \<and> n \<le> 21"
    | (small) "\<not> (k \<le> n \<and> n \<le> 21)" "\<not> (0 < n \<and> n \<le> 21)" "- 6 < n \<and> n \<le> 0"
    | (expo) "\<not> (k \<le> n \<and> n \<le> 21)" "\<not> (0 < n \<and> n \<le> 21)" "\<not> (- 6 < n \<and> n \<le> 0)"
    by blast
  then show ?thesis
  proof cases
    case int
    define j where "j = nat (n - k)"
    have dt_eq: "digits_text mm e = s @ replicate j 0x30"
      unfolding digits_text_def Let_def s_def [symmetric] k_def [symmetric] n_def [symmetric]
      using int by (simp add: j_def)
    have d2: "list_all is_digit (s @ replicate j 0x30)"
      using dig by (auto simp: list_all_iff is_digit_zero)
    have "scan_int ((s @ replicate j 0x30) @ rest) = Some (s @ replicate j 0x30, rest)"
      using d2 ne hd0 r(1) by (intro scan_int_digits) simp_all
    moreover have "scan_frac rest = Some ([], rest)" "scan_exp rest = Some (0, rest)"
      using r by (simp_all add: scan_frac_none scan_exp_none)
    moreover have "digits_val ((s @ replicate j 0x30) @ []) = mm * 10 ^ j"
      by (simp add: digits_val_append val digits_val_zeros)
    moreover have "0 - int (length ([] :: jstr)) = e - int j"
      using int by (simp add: j_def n_def)
    ultimately show ?thesis
      unfolding dt_eq by blast
  next
    case fixed
    define i where "i = nat n"
    have ik: "i < length s" and ipos: "0 < i"
      using fixed unfolding i_def k_def by linarith+
    have dt_eq: "digits_text mm e = take i s @ 0x2E # drop i s"
      unfolding digits_text_def Let_def s_def [symmetric] k_def [symmetric] n_def [symmetric]
      using fixed by (simp add: i_def)
    have dt: "list_all is_digit (take i s)" "list_all is_digit (drop i s)"
      using dig by (auto simp: list_all_iff dest: in_set_takeD in_set_dropD)
    have tne: "take i s \<noteq> []" "drop i s \<noteq> []" "hd (take i s) \<noteq> 0x30"
      using ik ipos ne hd0 by simp_all
    have "\<not> is_digit (0x2E :: 16 word)"
      by (simp add: is_digit_def)
    then have "scan_int (take i s @ (0x2E # drop i s @ rest)) = Some (take i s, 0x2E # drop i s @ rest)"
      using dt tne by (intro scan_int_digits) simp_all
    moreover have "scan_frac (0x2E # drop i s @ rest) = Some (drop i s, rest)"
      using dt tne r(1) by (intro scan_frac_dot) simp_all
    moreover have "scan_exp rest = Some (0, rest)"
      using r by (simp add: scan_exp_none)
    moreover have "digits_val (take i s @ drop i s) = mm * 10 ^ 0"
      by (simp add: val)
    moreover have "0 - int (length (drop i s)) = e - int 0"
      using fixed ik by (simp add: i_def n_def k_def)
    ultimately show ?thesis
      unfolding dt_eq by (metis append.assoc append_Cons)
  next
    case small
    define z where "z = nat (- n)"
    have dt_eq: "digits_text mm e = 0x30 # 0x2E # replicate z 0x30 @ s"
      unfolding digits_text_def Let_def s_def [symmetric] k_def [symmetric] n_def [symmetric]
      using small by (simp add: z_def js_def)
    have dz: "list_all is_digit (replicate z 0x30 @ s)" "replicate z 0x30 @ s \<noteq> []"
      using dig ne by (auto simp: list_all_iff is_digit_zero)
    have "scan_int (0x30 # 0x2E # (replicate z 0x30 @ s) @ rest)
        = Some ([0x30], 0x2E # (replicate z 0x30 @ s) @ rest)"
      by (rule scan_int_zero)
    moreover have "scan_frac (0x2E # (replicate z 0x30 @ s) @ rest) = Some (replicate z 0x30 @ s, rest)"
      using dz r(1) by (intro scan_frac_dot) simp_all
    moreover have "scan_exp rest = Some (0, rest)"
      using r by (simp add: scan_exp_none)
    moreover have "digits_val ([0x30] @ replicate z 0x30 @ s) = mm * 10 ^ 0"
    proof -
      have "[0x30] @ replicate z 0x30 @ s = replicate (Suc z) 0x30 @ s"
        by simp
      then show ?thesis
        by (simp only: digits_val_append digits_val_zeros val) simp
    qed
    moreover have "0 - int (length (replicate z 0x30 @ s)) = e - int 0"
      using small by (simp add: z_def n_def k_def)
    ultimately show ?thesis
      unfolding dt_eq by (metis append.assoc append_Cons)
  next
    case expo
    define x where "x = n - 1"
    define ex where "ex = 0x65 # (if x < 0 then 0x2D else 0x2B) # show_nat (nat \<bar>x\<bar>)"
    have exr: "scan_exp (ex @ rest) = Some (x, rest)"
      using scan_exp_some [OF r(1), of x] by (simp add: ex_def)
    have nd: "\<not> is_digit (0x65 :: 16 word)" "\<not> is_digit (0x2E :: 16 word)"
      by (simp_all add: is_digit_def)
    show ?thesis
    proof (cases "k = 1")
      case True
      have dt_eq: "digits_text mm e = s @ ex"
        unfolding digits_text_def Let_def s_def [symmetric] k_def [symmetric] n_def [symmetric]
      using expo True by (auto simp: ex_def x_def)
      have "scan_int (s @ (ex @ rest)) = Some (s, ex @ rest)"
        using dig ne hd0 nd by (intro scan_int_digits) (simp_all add: ex_def)
      moreover have "scan_frac (ex @ rest) = Some ([], ex @ rest)"
        by (intro scan_frac_none) (simp add: ex_def)
      moreover have "digits_val (s @ []) = mm * 10 ^ 0"
        by (simp add: val)
      moreover have "x - int (length ([] :: jstr)) = e - int 0"
        using True by (simp add: x_def n_def)
      ultimately show ?thesis
        unfolding dt_eq using exr by (metis append.assoc)
    next
      case False
      then have tl: "tl s \<noteq> []" "s = hd s # tl s"
        using ne kpos by (cases s; cases "tl s"; simp add: k_def)+
      have dt_eq: "digits_text mm e = hd s # 0x2E # tl s @ ex"
        unfolding digits_text_def Let_def s_def [symmetric] k_def [symmetric] n_def [symmetric]
      using expo False by (auto simp: ex_def x_def)
      have dh: "list_all is_digit [hd s]" "list_all is_digit (tl s)"
        using dig ne by (cases s; simp)+
      have "scan_int ([hd s] @ (0x2E # tl s @ ex @ rest)) = Some ([hd s], 0x2E # tl s @ ex @ rest)"
        using dh hd0 nd by (intro scan_int_digits) simp_all
      moreover have "scan_frac (0x2E # tl s @ (ex @ rest)) = Some (tl s, ex @ rest)"
        using dh tl nd by (intro scan_frac_dot) (simp_all add: ex_def)
      moreover have "digits_val ([hd s] @ tl s) = mm * 10 ^ 0"
        using tl(2) val by simp
      moreover have "x - int (length (tl s)) = e - int 0"
        using ne by (cases s) (simp_all add: x_def n_def k_def)
      ultimately show ?thesis
        unfolding dt_eq using exr by (metis append.assoc append_Cons append_Nil)
    qed
  qed
qed

lemma scan_int_hd: "scan_int s = Some x \<Longrightarrow> s \<noteq> [] \<and> is_digit (hd s)"
  by (cases s) (auto simp: scan_int_def is_digit_zero split: if_splits)

lemma not_digit_minus: "\<not> is_digit 0x2D"
  by (simp add: is_digit_def)

lemma parse_number_roundtrip:
  assumes well_formed: "well_formed_num (Finite m e)" and rest: "ends_token rest"
  shows "parse_number (number_to_string (Finite m e) @ rest) = Some (Finite m e, rest)"
proof (cases "m = 0")
  case True
  note r = ends_tokenD [OF rest]
  have "parse_number (0x30 # rest) = Some (to_double (int (digits_val ([0x30] @ []))) (0 - int (length ([] :: jstr))), rest)"
    using r by (intro parse_number_pos [where ?s2.0 = rest and ?s3.0 = rest])
      (simp_all add: scan_int_zero scan_frac_none scan_exp_none)
  with True well_formed show ?thesis
    by (simp add: number_to_string_def js_def digits_val_def digit_val_zero to_double_zero)
next
  case False
  define mm where "mm = nat \<bar>m\<bar>"
  have mm: "0 < mm"
    using False by (simp add: mm_def)
  from digits_text_scan [OF mm rest, of e]
  obtain ip fp ex s2 s3 j where
    sc: "scan_int (digits_text mm e @ rest) = Some (ip, s2)" "scan_frac s2 = Some (fp, s3)"
      "scan_exp s3 = Some (ex, rest)"
    and v: "digits_val (ip @ fp) = mm * 10 ^ j" "ex - int (length fp) = e - int j"
    by blast
  show ?thesis
  proof (cases "m < 0")
    case True
    then have "- int (mm * 10 ^ j) = m * 10 ^ j"
      by (simp add: mm_def)
    moreover have "parse_number (0x2D # digits_text mm e @ rest)
        = Some (to_double (- int (digits_val (ip @ fp))) (ex - int (length fp)), rest)"
      using sc by (rule parse_number_neg)
    moreover have "number_to_string (Finite m e) = 0x2D # digits_text mm e"
      unfolding mm_def using True by (simp add: number_to_string_digits)
    ultimately show ?thesis
      using False well_formed v by (simp add: to_double_well_formed)
  next
    case pos: False
    then have "int (mm * 10 ^ j) = m * 10 ^ j"
      using False by (simp add: mm_def)
    moreover have "parse_number (digits_text mm e @ rest)
        = Some (to_double (int (digits_val (ip @ fp))) (ex - int (length fp)), rest)"
      using scan_int_hd [OF sc(1)] sc not_digit_minus
      by (intro parse_number_pos [where ?s2.0 = s2 and ?s3.0 = s3]) auto
    moreover have "number_to_string (Finite m e) = digits_text mm e"
      unfolding mm_def using pos False by (simp add: number_to_string_digits)
    ultimately show ?thesis
      using False well_formed v by (simp add: to_double_well_formed)
  qed
qed

lemma number_to_string_hd:
  assumes "well_formed_num (Finite m e)"
  shows "number_to_string (Finite m e) \<noteq> []"
    and "is_digit (hd (number_to_string (Finite m e))) \<or> hd (number_to_string (Finite m e)) = 0x2D"
proof -
  have e: "ends_token []"
    by (simp add: ends_token_def)
  from parse_number_roundtrip [OF assms e]
  have p: "parse_number (number_to_string (Finite m e)) \<noteq> None"
    by simp
  then show "number_to_string (Finite m e) \<noteq> []"
    by (auto simp: parse_number_def scan_int_def)
  show "is_digit (hd (number_to_string (Finite m e))) \<or> hd (number_to_string (Finite m e)) = 0x2D"
  proof (cases "number_to_string (Finite m e)")
    case Nil
    with p show ?thesis by (simp add: parse_number_def scan_int_def)
  next
    case (Cons c r)
    with p show ?thesis
      by (auto simp: parse_number_def scan_int_def is_digit_zero split: if_splits option.splits)
  qed
qed

lemma to_double_idem:
  assumes "to_double m e = Finite m1 e1"
  shows "to_double m1 e1 = Finite m1 e1"
proof -
  obtain m' e' where n: "normalise m e = (m', e')"
    by (cases "normalise m e")
  note nn = normalise_idem [OF n]
  show ?thesis
  proof (cases "round64 \<bar>m'\<bar> e'")
    case Zero
    with assms n have "m1 = 0" "e1 = 0"
      by (simp_all add: to_double_def)
    then show ?thesis
      by (simp add: to_double_zero)
  next
    case Overflow
    with assms n show ?thesis
      by (simp add: to_double_def)
  next
    case (Binary f x)
    then have f: "0 \<le> f"
      by (rule round64_nonneg) simp
    show ?thesis
    proof (cases "shortest f x")
      case None
      with assms n Binary have "m1 = m'" "e1 = e'"
        by (simp_all add: to_double_def)
      with nn Binary None show ?thesis
        by (simp add: to_double_def)
    next
      case (Some c)
      obtain s k where c: "c = (s, k)"
        by (cases c)
      obtain ms es where ns: "normalise s k = (ms, es)"
        by (cases "normalise s k")
      note sh = shortest_result [OF Some [unfolded c] f]
      have ms: "0 \<le> ms"
        using sh(2) ns by (rule normalise_nonneg)
      from assms n Binary Some c ns
      have r: "m1 = (if m' < 0 then - ms else ms)" "e1 = es"
        by (simp_all add: to_double_def)
      show ?thesis
      proof (cases "ms = 0")
        case True
        with normalise_result [OF ns] r show ?thesis
          by (simp add: to_double_zero)
      next
        case False
        have "ms mod 10 \<noteq> 0"
          using normalise_result [OF ns] False by simp
        then have m1: "m1 \<noteq> 0" "m1 mod 10 \<noteq> 0" "\<bar>m1\<bar> = ms" "m1 < 0 \<longleftrightarrow> m' < 0"
          using False ms r(1) by (auto simp: zmod_zminus1_not_zero)
        have n1: "normalise m1 e1 = (m1, e1)"
          using m1 by (simp add: normalise_normal)
        have "round64 \<bar>m1\<bar> e1 = round64 s k"
          unfolding m1 r(2) using ns by (rule round64_normalise)
        then have "round64 \<bar>m1\<bar> e1 = Binary f x"
          using sh(1) by simp
        then show ?thesis
          using n1 Some c ns r m1 by (simp add: to_double_def)
      qed
    qed
  qed
qed

lemma wf_num_to_double: "well_formed_num (to_double m e)"
  by (cases "to_double m e") (simp_all add: to_double_idem)

lemma scan_digits_length: "scan_digits s = (ds, r) \<Longrightarrow> length r \<le> length s"
  by (auto simp: scan_digits_def length_dropWhile_le)

lemma scan_int_length: "scan_int s = Some (ds, r) \<Longrightarrow> length r < length s"
  by (cases s) (auto simp: scan_int_def scan_digits_def is_digit_zero le_imp_less_Suc length_dropWhile_le split: if_splits)

lemma scan_frac_length: "scan_frac s = Some (ds, r) \<Longrightarrow> length r \<le> length s"
  by (cases s) (auto simp: scan_frac_def scan_digits_def le_SucI length_dropWhile_le split: if_splits prod.splits)

lemma scan_exp_length: "scan_exp s = Some (x, r) \<Longrightarrow> length r \<le> length s"
proof (cases s)
  case Nil
  then show "scan_exp s = Some (x, r) \<Longrightarrow> length r \<le> length s" by (simp add: scan_exp_def)
next
  case (Cons c s')
  assume a: "scan_exp s = Some (x, r)"
  have "length (snd (scan_sign s')) \<le> length s'"
    by (cases s') (auto simp: scan_sign_def)
  moreover have "length (dropWhile is_digit t) \<le> length t" for t :: jstr
    by (rule length_dropWhile_le)
  ultimately show "length r \<le> length s"
    using a Cons
    by (auto simp: scan_exp_def scan_digits_def split: if_splits prod.splits
        intro: le_SucI order_trans)
qed

lemma parse_number_result:
  assumes "parse_number s = Some (x, r)"
  shows "well_formed_num x" and "length r < length s"
proof -
  from assms show "well_formed_num x"
    by (auto simp: parse_number_def wf_num_to_double split: list.splits if_splits option.splits prod.splits)
  from assms show "length r < length s"
    by (auto simp: parse_number_def split: list.splits if_splits option.splits prod.splits
        dest!: scan_int_length scan_frac_length scan_exp_length)
qed

lemma number_to_string_units:
  assumes "c \<in> set (number_to_string (Finite m e))"
  shows "is_digit c \<or> c = 0x2E \<or> c = 0x65 \<or> c = 0x2D \<or> c = 0x2B"
proof -
  have s: "is_digit d" if "d \<in> set (show_nat i)" for d i
    using that show_nat_digits [of i] by (simp add: list_all_iff)
  have hd_tl: "hd t \<in> set t" "set (tl t) \<subseteq> set t" if "t \<noteq> []" for t :: jstr
    using that by (cases t; simp; blast)+
  from assms show ?thesis
    by (auto simp: number_to_string_def digits_text_def js_def Let_def is_digit_zero
        show_nat_nonempty
        split: if_splits dest: s in_set_takeD in_set_dropD
        dest: subsetD [OF hd_tl(2) [OF show_nat_nonempty]])
      (metis hd_tl(1) s show_nat_nonempty)+
qed

section \<open>Strings: a quoted string parses back to it\<close>

lemma unat_hex_digit: "d < 16 \<Longrightarrow> unat (hex_digit d) = (if d < 10 then 48 + d else 87 + d)"
  unfolding hex_digit_def digit_of_def by (simp only: unat_of_nat split: if_splits) simp

lemma hex_val_hex_digit:
  assumes "d < 16"
  shows "hex_val (hex_digit d) = Some d"
proof -
  note u = unat_hex_digit [OF assms]
  show ?thesis
    using assms unfolding hex_val_def word_le_nat_alt u by (simp split: if_splits)
qed

lemma hex_digit_not_special:
  assumes "d < 16"
  shows "hex_digit d \<noteq> 0x0A"
proof
  assume "hex_digit d = 0x0A"
  then have "unat (hex_digit d) = unat (0x0A :: 16 word)"
    by simp
  then show False
    using assms by (simp add: unat_hex_digit split: if_splits)
qed

lemma hex4_unicode_escape:
  "hex4 (hex_digit (unat c div 4096)) (hex_digit (unat c div 256 mod 16))
        (hex_digit (unat c div 16 mod 16)) (hex_digit (unat c mod 16)) = Some c"
proof -
  define n where "n = unat c"
  have n: "n < 65536"
    using unsigned_less [of c, where 'a = nat] by (simp add: n_def)
  have e1: "n = 16 * (n div 16) + n mod 16"
    by simp
  have d: "n div 16 div 16 = n div 256" "n div 256 div 16 = n div 4096"
    by (simp_all add: div_mult2_eq [symmetric])
  have "n div 16 = 16 * (n div 16 div 16) + n div 16 mod 16"
    "n div 256 = 16 * (n div 256 div 16) + n div 256 mod 16"
    by (simp_all only: mult_div_mod_eq)
  then have e2: "n div 16 = 16 * (n div 256) + n div 16 mod 16"
    and e3: "n div 256 = 16 * (n div 4096) + n div 256 mod 16"
    by (simp_all only: d)
  have "4096 * (n div 4096) + 256 * (n div 256 mod 16) + 16 * (n div 16 mod 16) + n mod 16 = n"
    using e1 e2 e3 by linarith
  then have eq: "(of_nat (4096 * (n div 4096) + 256 * (n div 256 mod 16)
      + 16 * (n div 16 mod 16) + n mod 16) :: 16 word) = c"
    by (simp only: n_def) simp
  have a: "n div 4096 < 16"
    using n by simp
  have h: "hex_val (hex_digit (n div 4096)) = Some (n div 4096)"
    "hex_val (hex_digit (n div 256 mod 16)) = Some (n div 256 mod 16)"
    "hex_val (hex_digit (n div 16 mod 16)) = Some (n div 16 mod 16)"
    "hex_val (hex_digit (n mod 16)) = Some (n mod 16)"
    using a by (simp_all add: hex_val_hex_digit)
  show ?thesis
    unfolding hex4_def n_def [symmetric] h by (simp only: prod.case option.case eq)
qed

lemma parse_chars_raw:
  "c \<noteq> 0x22 \<Longrightarrow> c \<noteq> 0x5C \<Longrightarrow> \<not> c < 0x20 \<Longrightarrow> parse_chars (c # s) = cons_unit c (parse_chars s)"
  by simp

lemma parse_chars_unicode_escape:
  "parse_chars (unicode_escape c @ s) = cons_unit c (parse_chars s)"
  by (simp add: unicode_escape_def hex4_unicode_escape)

lemma parse_chars_escape_unit:
  "parse_chars (escape_unit c @ s) = cons_unit c (parse_chars s)"
  unfolding escape_unit_def
  by (simp add: parse_chars_unicode_escape unescape_def)

lemma surrogate_raw:
  assumes "is_lead c \<or> is_trail c"
  shows "c \<noteq> 0x22" "c \<noteq> 0x5C" "\<not> c < 0x20" "c \<noteq> 0x0A"
  using assms unfolding is_lead_def is_trail_def word_le_nat_alt word_less_nat_alt
  by auto

lemma parse_chars_close: "parse_chars (0x22 # rest) = Some ([], rest)"
  by simp

lemma parse_chars_quote_units:
  "parse_chars (quote_units u @ 0x22 # rest) = Some (u, rest)"
proof (induction u rule: quote_units.induct)
  case 1
  show ?case by (simp add: cons_unit_def)
next
  case (2 c)
  have "parse_chars (unicode_escape c @ 0x22 # rest) = Some ([c], rest)"
    "parse_chars (escape_unit c @ 0x22 # rest) = Some ([c], rest)"
    by (simp_all only: parse_chars_unicode_escape parse_chars_escape_unit parse_chars_close
        cons_unit_def option.case prod.case)
  then show ?case
    by (simp del: parse_chars.simps)
next
  case (3 c d ds)
  show ?case
  proof (cases "is_lead c \<and> is_trail d")
    case True
    have c: "c \<noteq> 0x22" "c \<noteq> 0x5C" "\<not> c < 0x20"
      and d: "d \<noteq> 0x22" "d \<noteq> 0x5C" "\<not> d < 0x20"
      using True surrogate_raw [of c] surrogate_raw [of d] by simp_all
    have "parse_chars (c # d # quote_units ds @ 0x22 # rest)
        = cons_unit c (cons_unit d (parse_chars (quote_units ds @ 0x22 # rest)))"
      by (simp only: parse_chars_raw [OF c] parse_chars_raw [OF d])
    with True 3(1) show ?thesis
      by (simp add: cons_unit_def del: parse_chars.simps)
  next
    case False
    with 3(2,3) show ?thesis
      by (auto simp: parse_chars_unicode_escape parse_chars_escape_unit cons_unit_def
          simp del: parse_chars.simps)
  qed
qed

lemma cons_unitD: "cons_unit c res = Some (u, r) \<Longrightarrow> \<exists>a. res = Some (a, r) \<and> u = c # a"
  by (auto simp: cons_unit_def split: option.splits)

lemma parse_chars_length: "parse_chars s = Some (u, r) \<Longrightarrow> length r < length s"
proof (induction "length s" arbitrary: s u r rule: less_induct)
  case less
  have IH: "length r' < length t" if "parse_chars t = Some (a, r')" "length t < length s" for t a r'
    using less.hyps [OF that(2) that(1)] .
  show ?case
  proof (cases s)
    case Nil
    with less.prems show ?thesis by simp
  next
    case (Cons c s')
    consider (q) "c = 0x22" | (esc) "c \<noteq> 0x22" "c = 0x5C" | (raw) "c \<noteq> 0x22" "c \<noteq> 0x5C"
      by blast
    then show ?thesis
    proof cases
      case q
      with less.prems Cons show ?thesis by simp
    next
      case raw
      with less.prems Cons have "cons_unit c (parse_chars s') = Some (u, r)"
        by (simp split: if_splits)
      then obtain a where "parse_chars s' = Some (a, r)"
        by (blast dest: cons_unitD)
      from IH [OF this] Cons show ?thesis by simp
    next
      case esc
      with less.prems Cons obtain e r1 where s': "s' = e # r1"
        by (cases s') auto
      show ?thesis
      proof (cases "e = 0x75")
        case True
        with less.prems Cons esc s' obtain h1 h2 h3 h4 r2 x where
          r1: "r1 = h1 # h2 # h3 # h4 # r2" and "cons_unit x (parse_chars r2) = Some (u, r)"
          by (auto split: list.splits option.splits)
        then obtain a where "parse_chars r2 = Some (a, r)"
          by (blast dest: cons_unitD)
        from IH [OF this] Cons s' r1 show ?thesis by simp
      next
        case False
        with less.prems Cons esc s' obtain x where "cons_unit x (parse_chars r1) = Some (u, r)"
          by (auto split: option.splits)
        then obtain a where "parse_chars r1 = Some (a, r)"
          by (blast dest: cons_unitD)
        from IH [OF this] Cons s' show ?thesis by simp
      qed
    qed
  qed
qed

lemma unicode_escape_no_newline: "0x0A \<notin> set (unicode_escape c)"
proof -
  have n: "unat c < 65536"
    using unsigned_less [of c, where 'a = nat] by simp
  then have "unat c div 4096 < 16" "unat c div 256 mod 16 < 16" "unat c div 16 mod 16 < 16"
    "unat c mod 16 < 16"
    by simp_all
  then show ?thesis
    by (simp add: unicode_escape_def hex_digit_not_special [symmetric])
qed

lemma escape_unit_no_newline: "0x0A \<notin> set (escape_unit c)"
proof (cases "c = 0x0A")
  case True
  then show ?thesis by (simp add: escape_unit_def)
next
  case False
  then show ?thesis
    using unicode_escape_no_newline [of c] by (simp add: escape_unit_def)
qed

lemma quote_units_no_newline: "0x0A \<notin> set (quote_units u)"
proof (induction u rule: quote_units.induct)
  case 1
  show ?case by simp
next
  case (2 c)
  show ?case by (simp add: escape_unit_no_newline unicode_escape_no_newline)
next
  case (3 c d ds)
  show ?case
  proof (cases "is_lead c \<and> is_trail d")
    case True
    then have "c \<noteq> 0x0A" "d \<noteq> 0x0A"
      using surrogate_raw(4) [of c] surrogate_raw(4) [of d] by simp_all
    with True 3(1) show ?thesis by simp
  next
    case False
    with 3(2,3) show ?thesis
      by (auto simp: escape_unit_no_newline unicode_escape_no_newline)
  qed
qed

lemma QuoteJSONString_no_newline: "0x0A \<notin> set (QuoteJSONString u)"
  by (simp add: QuoteJSONString_def quote_units_no_newline)

lemma QuoteJSONString_parse:
  "parse_chars (tl (QuoteJSONString u) @ rest) = Some (u, rest)"
  by (simp add: QuoteJSONString_def parse_chars_quote_units del: parse_chars.simps)

section \<open>Objects: property order is kept\<close>

lemma map_of_obj_set: "map_of (obj_set k v ps) = (map_of ps)(k \<mapsto> v)"
  by (induction ps) (auto simp: fun_eq_iff)

lemma goes_before_asym: "goes_before a b \<Longrightarrow> \<not> goes_before b a"
  by (auto simp: goes_before_def split: if_splits)

lemma goes_before_trans: "goes_before a b \<Longrightarrow> \<not> goes_before c b \<Longrightarrow> \<not> goes_before c a"
  by (auto simp: goes_before_def split: if_splits)

lemma obj_set_keys: "set (map fst (obj_set k v ps)) = insert k (set (map fst ps))"
proof (induction ps)
  case Nil
  show ?case by simp
next
  case (Cons p ps)
  then show ?case
    by (cases p) (simp add: insert_commute)
qed

lemma canonical_Cons:
  "canonical (p # ps) \<longleftrightarrow>
     (\<forall>q \<in> set ps. fst p \<noteq> fst q \<and> \<not> goes_before (fst q) (fst p)) \<and> canonical ps"
  by (simp add: canonical_def)

lemma canonical_Nil: "canonical []"
  by (simp add: canonical_def)

lemma canonical_obj_set: "canonical ps \<Longrightarrow> canonical (obj_set k v ps)"
proof (induction ps)
  case Nil
  show ?case by (simp add: canonical_def)
next
  case (Cons p ps)
  obtain k' v' where p: "p = (k', v')"
    by (cases p)
  from Cons.prems have later: "\<forall>q \<in> set ps. k' \<noteq> fst q \<and> \<not> goes_before (fst q) k'"
    and cps: "canonical ps"
    by (simp_all add: canonical_Cons p)
  show ?case
  proof (cases "k = k'")
    case True
    with Cons.prems show ?thesis
      by (simp add: p canonical_Cons)
  next
    case False
    show ?thesis
    proof (cases "goes_before k k'")
      case True
      have "k \<noteq> fst q \<and> \<not> goes_before (fst q) k" if "q \<in> set ps" for q
        using later that True goes_before_trans [OF True] by (metis)
      with True False Cons.prems show ?thesis
        using goes_before_asym [OF True] by (auto simp: p canonical_Cons)
    next
      case nb: False
      have "\<forall>q \<in> set (obj_set k v ps). k' \<noteq> fst q \<and> \<not> goes_before (fst q) k'"
      proof
        fix q
        assume "q \<in> set (obj_set k v ps)"
        then have "fst q \<in> insert k (fst ` set ps)"
          using obj_set_keys [of k v ps] by (metis image_eqI set_map)
        with later False nb show "k' \<noteq> fst q \<and> \<not> goes_before (fst q) k'"
          by auto
      qed
      with False nb Cons.IH [OF cps] show ?thesis
        by (simp add: p canonical_Cons)
    qed
  qed
qed

lemma canonical_build_object: "canonical (build_object ms)"
proof -
  have "canonical ps \<Longrightarrow> canonical (foldl (\<lambda>ps (k, v). obj_set k v ps) ps ms)" for ps
    by (induction ms arbitrary: ps) (auto simp: canonical_obj_set)
  then show ?thesis
    by (simp add: build_object_def canonical_Nil)
qed

lemma obj_set_snoc:
  "canonical (ps @ [(k, v)]) \<Longrightarrow> obj_set k v ps = ps @ [(k, v)]"
proof (induction ps)
  case Nil
  show ?case by simp
next
  case (Cons p ps)
  obtain k' v' where p: "p = (k', v')"
    by (cases p)
  from Cons.prems have "k' \<noteq> k" "\<not> goes_before k k'" "canonical (ps @ [(k, v)])"
    by (auto simp: canonical_Cons p)
  with Cons.IH show ?case
    by (simp add: p)
qed

lemma canonical_prefix: "canonical (ps @ qs) \<Longrightarrow> canonical ps"
  by (simp add: canonical_def sorted_wrt_append)

lemma build_object_canonical:
  assumes "canonical ps"
  shows "build_object ps = ps"
proof -
  have "canonical (acc @ qs) \<Longrightarrow> foldl (\<lambda>ps (k, v). obj_set k v ps) acc qs = acc @ qs" for acc qs
  proof (induction qs arbitrary: acc)
    case Nil
    show ?case by simp
  next
    case (Cons q qs)
    obtain k v where q: "q = (k, v)"
      by (cases q)
    from Cons.prems have c: "canonical ((acc @ [(k, v)]) @ qs)"
      by (simp add: q)
    then have "obj_set k v acc = acc @ [(k, v)]"
      by (intro obj_set_snoc) (rule canonical_prefix)
    with Cons.IH [OF c] show ?case
      by (simp add: q)
  qed
  from this [of "[]" ps] assms show ?thesis
    by (simp add: build_object_def)
qed

section \<open>Values: \<open>JSON.parse\<close> after \<open>JSON.stringify\<close>\<close>

lemma is_digit_range: "is_digit c \<Longrightarrow> 48 \<le> unat c \<and> unat c \<le> 57"
  by (simp add: is_digit_def word_le_nat_alt)

lemma digit_not_punct:
  assumes "is_digit c \<or> c = 0x2D"
  shows "\<not> is_ws c" "c \<noteq> 0x5B" "c \<noteq> 0x7B" "c \<noteq> 0x22" "c \<noteq> 0x74" "c \<noteq> 0x66"
    "c \<noteq> 0x6E" "c \<noteq> 0x5D" "c \<noteq> 0x7D" "c \<noteq> 0x2C"
  using assms is_digit_range [of c] by (auto simp: is_ws_def)

lemma skip_ws_start: "\<not> is_ws c \<Longrightarrow> skip_ws (c # s) = c # s"
  by (simp add: skip_ws_def)

lemma starts_value_stringify:
  assumes "well_formed v" and "as_written v = v"
  shows "starts_value (JSON_stringify v)"
proof (cases v)
  case (JNum x)
  with assms obtain m e where x: "x = Finite m e"
    by (cases x) auto
  with assms JNum have w: "well_formed_num (Finite m e)"
    by simp
  from number_to_string_hd [OF w] obtain c r where
    "number_to_string (Finite m e) = c # r" "is_digit c \<or> c = 0x2D"
    by (cases "number_to_string (Finite m e)") auto
  then show ?thesis
    using digit_not_punct [of c] by (simp add: JNum x starts_value_def)
qed (auto simp: starts_value_def js_def is_ws_def QuoteJSONString_def)

lemma starts_valueD:
  assumes "starts_value s"
  obtains c r where "s = c # r" "\<not> is_ws c" "c \<noteq> 0x5D" "c \<noteq> 0x7D" "c \<noteq> 0x2C"
  using assms by (cases s) (auto simp: starts_value_def)

lemma parse_value_null: "parse_value (js ''null'' @ rest) = Some (JNull, rest)"
  by (simp add: parse_value.simps js_def skip_ws_def is_ws_def scalar_def literal_def)

lemma parse_value_true: "parse_value (js ''true'' @ rest) = Some (JBool True, rest)"
  by (simp add: parse_value.simps js_def skip_ws_def is_ws_def scalar_def literal_def)

lemma parse_value_false: "parse_value (js ''false'' @ rest) = Some (JBool False, rest)"
  by (simp add: parse_value.simps js_def skip_ws_def is_ws_def scalar_def literal_def)

lemma parse_value_string:
  "parse_value (QuoteJSONString u @ rest) = Some (JStr u, rest)"
  by (simp add: parse_value.simps QuoteJSONString_def skip_ws_def is_ws_def scalar_def
      parse_chars_quote_units del: parse_chars.simps)

lemma parse_value_number:
  assumes "well_formed_num (Finite m e)" and "ends_token rest"
  shows "parse_value (number_to_string (Finite m e) @ rest) = Some (JNum (Finite m e), rest)"
proof -
  from number_to_string_hd [OF assms(1)] obtain c r where
    s: "number_to_string (Finite m e) = c # r" and c: "is_digit c \<or> c = 0x2D"
    by (cases "number_to_string (Finite m e)") auto
  note p = digit_not_punct [OF c]
  have "parse_value ((c # r) @ rest) = scalar ((c # r) @ rest)"
    using p by (simp add: parse_value.simps skip_ws_start)
  also have "\<dots> = map_option (\<lambda>(x, r'). (JNum x, r')) (parse_number ((c # r) @ rest))"
    using p by (simp add: scalar_def)
  also have "\<dots> = Some (JNum (Finite m e), rest)"
    using parse_number_roundtrip [OF assms] by (simp add: s)
  finally show ?thesis
    by (simp add: s)
qed

lemma parse_elements_roundtrip:
  assumes "\<And>x rest. x \<in> set xs \<Longrightarrow> ends_token rest \<Longrightarrow>
      parse_value (JSON_stringify x @ rest) = Some (x, rest)"
    and "xs \<noteq> []"
  shows "parse_elements (join_with 0x2C (map JSON_stringify xs) @ 0x5D # rest) = Some (xs, rest)"
  using assms(2,1)
proof (induction xs rule: list_nonempty_induct)
  case (single x)
  have e: "ends_token (0x5D # rest)"
    by (simp add: ends_token_def is_digit_def)
  have "parse_value (JSON_stringify x @ 0x5D # rest) = Some (x, 0x5D # rest)"
    using single e by simp
  then show ?case
    by (simp add: parse_elements.simps skip_ws_def is_ws_def)
next
  case (cons x xs)
  obtain y ys where xs: "xs = y # ys"
    using cons.hyps by (cases xs) auto
  define J where "J = join_with 0x2C (map JSON_stringify xs) @ 0x5D # rest"
  have e: "ends_token (0x2C # J)"
    by (simp add: ends_token_def is_digit_def)
  have j: "join_with 0x2C (map JSON_stringify (x # xs)) @ 0x5D # rest = JSON_stringify x @ 0x2C # J"
    by (simp add: xs J_def)
  have pv: "parse_value (JSON_stringify x @ 0x2C # J) = Some (x, 0x2C # J)"
    using cons.prems e by simp
  have "parse_elements J = Some (xs, rest)"
    unfolding J_def using cons.prems by (intro cons.IH) simp
  then show ?case
    unfolding j by (subst parse_elements.simps) (simp add: pv skip_ws_def is_ws_def)
qed

lemma parse_members_roundtrip:
  assumes "\<And>k v rest. (k, v) \<in> set ps \<Longrightarrow> ends_token rest \<Longrightarrow>
      parse_value (JSON_stringify v @ rest) = Some (v, rest)"
    and "ps \<noteq> []"
  shows "parse_members
      (join_with 0x2C (map (\<lambda>p. QuoteJSONString (fst p) @ 0x3A # JSON_stringify (snd p)) ps)
        @ 0x7D # rest) = Some (ps, rest)"
  using assms(2,1)
proof (induction ps rule: list_nonempty_induct)
  case (single p)
  obtain k v where p: "p = (k, v)"
    by (cases p)
  have e: "ends_token (0x7D # rest)"
    by (simp add: ends_token_def is_digit_def)
  have pv: "parse_value (JSON_stringify v @ 0x7D # rest) = Some (v, 0x7D # rest)"
    using single e by (simp add: p)
  have pc: "parse_chars (quote_units k @ 0x22 # 0x3A # JSON_stringify v @ 0x7D # rest)
      = Some (k, 0x3A # JSON_stringify v @ 0x7D # rest)"
    by (rule parse_chars_quote_units)
  show ?case
    by (subst parse_members.simps)
      (simp add: p QuoteJSONString_def skip_ws_def is_ws_def pc pv del: parse_chars.simps)
next
  case (cons p ps)
  obtain k v where p: "p = (k, v)"
    by (cases p)
  obtain q qs where ps: "ps = q # qs"
    using cons.hyps by (cases ps) auto
  define J where "J = join_with 0x2C
      (map (\<lambda>p. QuoteJSONString (fst p) @ 0x3A # JSON_stringify (snd p)) ps) @ 0x7D # rest"
  have e: "ends_token (0x2C # J)"
    by (simp add: ends_token_def is_digit_def)
  have j: "join_with 0x2C (map (\<lambda>p. QuoteJSONString (fst p) @ 0x3A # JSON_stringify (snd p)) (p # ps))
      @ 0x7D # rest = 0x22 # quote_units k @ 0x22 # 0x3A # JSON_stringify v @ 0x2C # J"
    by (simp add: ps p J_def QuoteJSONString_def)
  have pv: "parse_value (JSON_stringify v @ 0x2C # J) = Some (v, 0x2C # J)"
    using cons.prems [of k v "0x2C # J"] e by (simp add: p)
  have pc: "parse_chars (quote_units k @ 0x22 # 0x3A # JSON_stringify v @ 0x2C # J)
      = Some (k, 0x3A # JSON_stringify v @ 0x2C # J)"
    by (rule parse_chars_quote_units)
  have "parse_value (JSON_stringify v' @ r') = Some (v', r')"
    if "(k', v') \<in> set ps" "ends_token r'" for k' v' r'
    using cons.prems [of k' v' r'] that by simp
  then have "parse_members J = Some (ps, rest)"
    unfolding J_def by (rule cons.IH)
  then show ?case
    unfolding j
    by (subst parse_members.simps)
      (simp add: p skip_ws_def is_ws_def pc pv del: parse_chars.simps)
qed

lemma map_fixD: "map f xs = xs \<Longrightarrow> x \<in> set xs \<Longrightarrow> f x = x"
  by (induction xs) auto

lemma parse_value_array:
  assumes "\<And>x rest. x \<in> set xs \<Longrightarrow> ends_token rest \<Longrightarrow>
      parse_value (JSON_stringify x @ rest) = Some (x, rest)"
    and "\<And>x. x \<in> set xs \<Longrightarrow> starts_value (JSON_stringify x)"
  shows "parse_value (JSON_stringify (JArr xs) @ rest) = Some (JArr xs, rest)"
proof (cases xs)
  case Nil
  then show ?thesis
    by (simp add: parse_value.simps skip_ws_def is_ws_def)
next
  case (Cons x ys)
  define J where "J = join_with 0x2C (map JSON_stringify xs) @ 0x5D # rest"
  from assms(2) [of x] Cons obtain c r where
    s: "JSON_stringify x = c # r" and c: "\<not> is_ws c" "c \<noteq> 0x5D"
    by (auto elim: starts_valueD)
  have "\<exists>t. J = c # t"
    by (cases ys) (simp_all add: J_def Cons s)
  then obtain t where J: "J = c # t"
    by blast
  have "parse_elements J = Some (xs, rest)"
    unfolding J_def using assms(1) Cons by (intro parse_elements_roundtrip) simp_all
  then have "parse_value (0x5B # J) = Some (JArr xs, rest)"
    using c by (subst parse_value.simps) (simp add: skip_ws_start is_ws_def J)
  then show ?thesis
    by (simp add: J_def)
qed

lemma parse_value_object:
  assumes "\<And>k v rest. (k, v) \<in> set ps \<Longrightarrow> ends_token rest \<Longrightarrow>
      parse_value (JSON_stringify v @ rest) = Some (v, rest)"
    and "canonical ps"
  shows "parse_value (JSON_stringify (JObj ps) @ rest) = Some (JObj ps, rest)"
proof (cases ps)
  case Nil
  then show ?thesis
    by (simp add: parse_value.simps skip_ws_def is_ws_def)
next
  case (Cons p qs)
  define J where "J = join_with 0x2C
      (map (\<lambda>p. QuoteJSONString (fst p) @ 0x3A # JSON_stringify (snd p)) ps) @ 0x7D # rest"
  have "\<exists>t. J = 0x22 # t"
    by (cases qs) (simp_all add: J_def Cons QuoteJSONString_def)
  then obtain t where J: "J = 0x22 # t"
    by blast
  have "parse_members J = Some (ps, rest)"
    unfolding J_def using assms(1) Cons by (intro parse_members_roundtrip) simp_all
  then have "parse_value (0x7B # J) = Some (JObj (build_object ps), rest)"
    by (subst parse_value.simps) (simp add: skip_ws_start is_ws_def J)
  then show ?thesis
    using assms(2) by (simp add: J_def build_object_canonical)
qed

lemma parse_value_roundtrip:
  "well_formed v \<Longrightarrow> as_written v = v \<Longrightarrow> ends_token rest \<Longrightarrow>
   parse_value (JSON_stringify v @ rest) = Some (v, rest)"
proof (induction v arbitrary: rest)
  case JNull
  show ?case by (simp add: parse_value_null)
next
  case (JBool b)
  show ?case by (simp add: parse_value_true parse_value_false)
next
  case (JNum x)
  then obtain m e where x: "x = Finite m e"
    by (cases x) auto
  with JNum show ?case
    by (simp add: parse_value_number)
next
  case (JStr u)
  show ?case by (simp add: parse_value_string)
next
  case (JArr xs)
  have "map as_written xs = xs"
    using JArr.prems(2) by simp
  then have w: "well_formed x" "as_written x = x" if "x \<in> set xs" for x
    using JArr.prems(1) that by (simp_all add: list_all_iff map_fixD)
  show ?case
  proof (rule parse_value_array)
    fix x r
    assume "x \<in> set xs" "ends_token r"
    then show "parse_value (JSON_stringify x @ r) = Some (x, r)"
      using JArr.IH w by blast
  next
    fix x
    assume "x \<in> set xs"
    then show "starts_value (JSON_stringify x)"
      using w by (intro starts_value_stringify)
  qed
next
  case (JObj ps)
  have c: "canonical ps"
    using JObj.prems(1) by simp
  have "map (\<lambda>p. (fst p, as_written (snd p))) ps = ps"
    using JObj.prems(2) by simp
  then have aw: "(fst p, as_written (snd p)) = p" if "p \<in> set ps" for p
    using that by (rule map_fixD)
  have w: "well_formed v" "as_written v = v" if "(k, v) \<in> set ps" for k v
    using JObj.prems(1) aw [OF that] that by (auto simp: list_all_iff)
  show ?case
  proof (rule parse_value_object [OF _ c])
    fix k v r
    assume kv: "(k, v) \<in> set ps" and "ends_token r"
    moreover have "v \<in> Basic_BNFs.snds (k, v)"
      by simp
    ultimately show "parse_value (JSON_stringify v @ r) = Some (v, r)"
      using JObj.IH w by blast
  qed
qed

theorem JSON_roundtrip:
  assumes "well_formed v" and "as_written v = v"
  shows "JSON_parse (JSON_stringify v) = Some v"
proof -
  have "ends_token []"
    by (simp add: ends_token_def)
  from parse_value_roundtrip [OF assms this] show ?thesis
    by (simp add: JSON_parse_def skip_ws_def)
qed

lemma skip_ws_length: "length (skip_ws s) \<le> length s"
  by (simp add: skip_ws_def length_dropWhile_le)

lemma skip_ws_Cons_length: "skip_ws s = c # r \<Longrightarrow> length r < length s"
  using skip_ws_length [of s] by simp

lemma obj_set_values: "set (map snd (obj_set k v ps)) \<subseteq> insert v (set (map snd ps))"
proof (induction ps)
  case Nil
  show ?case by simp
next
  case (Cons p ps)
  then show ?case
    by (cases p) auto
qed

lemma build_object_values: "set (map snd (build_object ms)) \<subseteq> set (map snd ms)"
proof -
  have "set (map snd (foldl (\<lambda>ps (k, v). obj_set k v ps) acc ms))
      \<subseteq> set (map snd acc) \<union> set (map snd ms)" for acc
  proof (induction ms arbitrary: acc)
    case Nil
    show ?case by simp
  next
    case (Cons m ms)
    obtain k v where m: "m = (k, v)"
      by (cases m)
    from Cons [of "obj_set k v acc"] obj_set_values [of k v acc] show ?case
      by (auto simp: m)
  qed
  from this [of "[]"] show ?thesis
    by (simp add: build_object_def)
qed

lemma wf_build_object:
  assumes "list_all (\<lambda>p. well_formed (snd p)) ms"
  shows "well_formed (JObj (build_object ms))"
proof -
  have "well_formed (snd p)" if "p \<in> set (build_object ms)" for p
  proof -
    from that have "snd p \<in> set (map snd (build_object ms))"
      by simp
    with build_object_values [of ms] have "snd p \<in> set (map snd ms)"
      by blast
    then obtain q where "q \<in> set ms" "snd q = snd p"
      by auto
    with assms show ?thesis
      by (auto simp: list_all_iff)
  qed
  then show ?thesis
    by (simp add: canonical_build_object list_all_iff)
qed

lemma literal_result:
  assumes "literal w v s = Some (x, r)" and "w \<noteq> []"
  shows "x = v" and "length r < length s"
proof -
  from assms(1) have t: "take (length w) s = w" and r: "r = drop (length w) s" and x: "x = v"
    by (auto simp: literal_def split: if_splits)
  show "x = v" by (rule x)
  from t assms(2) have "s \<noteq> []"
    by auto
  with assms(2) show "length r < length s"
    by (simp add: r)
qed

lemma scalar_result:
  assumes "scalar s = Some (v, r)"
  shows "well_formed v" and "length r < length s"
proof -
  obtain c t where s: "s = c # t"
    using assms by (cases s) (auto simp: scalar_def)
  have ne: "js ''true'' \<noteq> []" "js ''false'' \<noteq> []" "js ''null'' \<noteq> []"
    by (simp_all add: js_def)
  consider (str) "c = 0x22" | (t) "c \<noteq> 0x22" "c = 0x74" | (f) "c \<noteq> 0x22" "c \<noteq> 0x74" "c = 0x66"
    | (n) "c \<noteq> 0x22" "c \<noteq> 0x74" "c \<noteq> 0x66" "c = 0x6E"
    | (num) "c \<noteq> 0x22" "c \<noteq> 0x74" "c \<noteq> 0x66" "c \<noteq> 0x6E"
    by blast
  then have "well_formed v \<and> length r < length s"
  proof cases
    case str
    with assms s obtain u where "parse_chars t = Some (u, r)" "v = JStr u"
      by (auto simp: scalar_def simp del: parse_chars.simps)
    then show ?thesis
      using parse_chars_length [of t u r] by (simp add: s)
  next
    case t
    with assms s have "literal (js ''true'') (JBool True) s = Some (v, r)"
      by (simp add: scalar_def)
    from literal_result [OF this ne(1)] show ?thesis by simp
  next
    case f
    with assms s have "literal (js ''false'') (JBool False) s = Some (v, r)"
      by (simp add: scalar_def)
    from literal_result [OF this ne(2)] show ?thesis by simp
  next
    case n
    with assms s have "literal (js ''null'') JNull s = Some (v, r)"
      by (simp add: scalar_def)
    from literal_result [OF this ne(3)] show ?thesis by simp
  next
    case num
    with assms s obtain x where "parse_number s = Some (x, r)" "v = JNum x"
      by (auto simp: scalar_def)
    then show ?thesis
      using parse_number_result [of s x r] by simp
  qed
  then show "well_formed v" and "length r < length s"
    by simp_all
qed

lemma parse_results:
  "(\<forall>v r. parse_value s = Some (v, r) \<longrightarrow> well_formed v \<and> length r < length s) \<and>
   (\<forall>xs r. parse_elements s = Some (xs, r) \<longrightarrow> list_all well_formed xs \<and> length r < length s) \<and>
   (\<forall>ms r. parse_members s = Some (ms, r) \<longrightarrow>
      list_all (\<lambda>p. well_formed (snd p)) ms \<and> length r < length s)"
proof (induction "length s" arbitrary: s rule: less_induct)
  case less
  have IHe: "list_all well_formed xs \<and> length r < length t"
    if "parse_elements t = Some (xs, r)" "length t < length s" for t xs r
    using less [OF that(2)] that(1) by blast
  have IHm: "list_all (\<lambda>p. well_formed (snd p)) ms \<and> length r < length t"
    if "parse_members t = Some (ms, r)" "length t < length s" for t ms r
    using less [OF that(2)] that(1) by blast
  have IHv: "well_formed v \<and> length r < length t"
    if "parse_value t = Some (v, r)" "length t < length s" for t v r
    using less [OF that(2)] that(1) by blast
  have V: "well_formed v \<and> length r < length s" if pv: "parse_value s = Some (v, r)" for v r
  proof -
    from pv obtain c t where sk: "skip_ws s = c # t"
      by (subst (asm) parse_value.simps) (auto split: list.splits)
    note lt = skip_ws_Cons_length [OF sk]
    consider (arr) "c = 0x5B" | (obj) "c \<noteq> 0x5B" "c = 0x7B" | (sc) "c \<noteq> 0x5B" "c \<noteq> 0x7B"
      by blast
    then show ?thesis
    proof cases
      case arr
      with pv sk obtain d t' where sk': "skip_ws t = d # t'"
        by (subst (asm) parse_value.simps) (auto split: list.splits)
      show ?thesis
      proof (cases "d = 0x5D")
        case True
        with pv sk sk' arr have "v = JArr []" "r = t'"
          by (subst (asm) parse_value.simps; simp)+
        with lt skip_ws_Cons_length [OF sk'] show ?thesis by simp
      next
        case False
        with pv sk sk' arr obtain xs where "parse_elements t = Some (xs, r)" "v = JArr xs"
          by (subst (asm) parse_value.simps) auto
        with IHe [OF this(1) lt] lt show ?thesis by simp
      qed
    next
      case obj
      with pv sk obtain d t' where sk': "skip_ws t = d # t'"
        by (subst (asm) parse_value.simps) (auto split: list.splits)
      show ?thesis
      proof (cases "d = 0x7D")
        case True
        with pv sk sk' obj have "v = JObj []" "r = t'"
          by (subst (asm) parse_value.simps; simp)+
        with lt skip_ws_Cons_length [OF sk'] show ?thesis by (simp add: canonical_Nil)
      next
        case False
        with pv sk sk' obj obtain ms where "parse_members t = Some (ms, r)"
          "v = JObj (build_object ms)"
          by (subst (asm) parse_value.simps) auto
        with IHm [OF this(1) lt] lt wf_build_object [of ms] show ?thesis by simp
      qed
    next
      case sc
      with pv sk have "scalar (c # t) = Some (v, r)"
        by (subst (asm) parse_value.simps) simp
      from scalar_result [OF this] skip_ws_length [of s] sk show ?thesis
        by simp
    qed
  qed
  have E: "list_all well_formed xs \<and> length r < length s" if pe: "parse_elements s = Some (xs, r)" for xs r
  proof -
    from pe obtain v r1 where pv: "parse_value s = Some (v, r1)"
      by (subst (asm) parse_elements.simps) (auto split: option.splits)
    from V [OF pv] have v: "well_formed v" "length r1 < length s"
      by simp_all
    from pe pv obtain c t where sk: "skip_ws r1 = c # t"
      by (subst (asm) parse_elements.simps) (auto split: list.splits)
    note lt = skip_ws_Cons_length [OF sk]
    show ?thesis
    proof (cases "c = 0x5D")
      case True
      with pe pv sk have "xs = [v]" "r = t"
        by (subst (asm) parse_elements.simps; simp)+
      with v lt show ?thesis by simp
    next
      case False
      with pe pv sk obtain ys where "parse_elements t = Some (ys, r)" "xs = v # ys"
        "length t < length s"
        by (subst (asm) parse_elements.simps) (auto split: if_splits)
      with IHe [OF this(1,3)] v show ?thesis by simp
    qed
  qed
  have M: "list_all (\<lambda>p. well_formed (snd p)) ms \<and> length r < length s"
    if pm: "parse_members s = Some (ms, r)" for ms r
  proof -
    from pm obtain r0 where sk0: "skip_ws s = 0x22 # r0"
      by (subst (asm) parse_members.simps) (auto split: list.splits if_splits)
    from pm sk0 obtain k r1 where pc: "parse_chars r0 = Some (k, r1)"
      by (subst (asm) parse_members.simps) (auto split: option.splits)
    from pm sk0 pc obtain r2 where sk1: "skip_ws r1 = 0x3A # r2" and l2: "length r2 < length s"
      by (subst (asm) parse_members.simps) (auto split: list.splits if_splits)
    from pm sk0 pc sk1 l2 obtain v r3 where pv: "parse_value r2 = Some (v, r3)"
      by (subst (asm) parse_members.simps) (auto split: option.splits)
    from IHv [OF pv l2] have v: "well_formed v" "length r3 < length r2"
      by simp_all
    from pm sk0 pc sk1 l2 pv obtain d r4 where sk3: "skip_ws r3 = d # r4"
      by (subst (asm) parse_members.simps) (auto split: list.splits)
    have l4: "length r4 < length s"
      using skip_ws_Cons_length [OF sk3] v(2) l2 by simp
    show ?thesis
    proof (cases "d = 0x7D")
      case True
      with pm sk0 pc sk1 l2 pv sk3 have "ms = [(k, v)]" "r = r4"
        by (subst (asm) parse_members.simps; simp)+
      with v l4 show ?thesis by simp
    next
      case False
      with pm sk0 pc sk1 l2 pv sk3 obtain ns where "parse_members r4 = Some (ns, r)"
        "ms = (k, v) # ns"
        by (subst (asm) parse_members.simps) (auto split: if_splits)
      with IHm [OF this(1) l4] v l4 show ?thesis by simp
    qed
  qed
  from V E M show ?case
    by blast
qed

lemma parse_value_shorter: "parse_value s = Some (v, r) \<Longrightarrow> length r < length s"
  using parse_results [of s] by blast

lemma JSON_parse_wf: "JSON_parse s = Some v \<Longrightarrow> well_formed v"
  using parse_results [of s] by (auto simp: JSON_parse_def split: option.splits if_splits)

text \<open>The comparisons of lengths in the parser always hold where they are made.\<close>

lemma parse_guards_hold:
  "parse_value s = Some (v, r) \<Longrightarrow> skip_ws r = c # r' \<Longrightarrow> length r' < length s"
  "skip_ws s = q # r0 \<Longrightarrow> parse_chars r0 = Some (k, r1) \<Longrightarrow> skip_ws r1 = c # r2 \<Longrightarrow>
   length r2 < length s"
  "skip_ws s = q # r0 \<Longrightarrow> parse_chars r0 = Some (k, r1) \<Longrightarrow> skip_ws r1 = c # r2 \<Longrightarrow>
   parse_value r2 = Some (v, r3) \<Longrightarrow> skip_ws r3 = d # r4 \<Longrightarrow> length r4 < length s"
proof -
  show "length r' < length s" if "parse_value s = Some (v, r)" "skip_ws r = c # r'"
    using parse_value_shorter [OF that(1)] skip_ws_Cons_length [OF that(2)] by simp
  show l2: "length r2 < length s"
    if "skip_ws s = q # r0" "parse_chars r0 = Some (k, r1)" "skip_ws r1 = c # r2"
    using skip_ws_Cons_length [OF that(1)] parse_chars_length [OF that(2)]
      skip_ws_Cons_length [OF that(3)] by simp
  show "length r4 < length s"
    if "skip_ws s = q # r0" "parse_chars r0 = Some (k, r1)" "skip_ws r1 = c # r2"
      "parse_value r2 = Some (v, r3)" "skip_ws r3 = d # r4"
    using l2 [OF that(1,2,3)] parse_value_shorter [OF that(4)] skip_ws_Cons_length [OF that(5)]
    by simp
qed

lemma stringify_as_written: "JSON_stringify (as_written v) = JSON_stringify v"
proof (induction v)
  case (JNum x)
  show ?case by (cases x) (simp_all add: js_def)
next
  case (JArr xs)
  then have "map (JSON_stringify \<circ> as_written) xs = map JSON_stringify xs"
    by (intro map_cong) simp_all
  then show ?case
    by (simp only: as_written.simps JSON_stringify.simps map_map)
next
  case (JObj ps)
  have "map ((\<lambda>p. QuoteJSONString (fst p) @ 0x3A # JSON_stringify (snd p)) \<circ>
        (\<lambda>p. (fst p, as_written (snd p)))) ps
      = map (\<lambda>p. QuoteJSONString (fst p) @ 0x3A # JSON_stringify (snd p)) ps"
  proof (intro map_cong refl)
    fix p
    assume "p \<in> set ps"
    moreover have "snd p \<in> Basic_BNFs.snds p"
      by (cases p) simp
    ultimately have "JSON_stringify (as_written (snd p)) = JSON_stringify (snd p)"
      using JObj by blast
    then show "((\<lambda>p. QuoteJSONString (fst p) @ 0x3A # JSON_stringify (snd p)) \<circ>
        (\<lambda>p. (fst p, as_written (snd p)))) p
      = QuoteJSONString (fst p) @ 0x3A # JSON_stringify (snd p)"
      by simp
  qed
  then show ?case
    by (simp only: as_written.simps JSON_stringify.simps map_map)
qed simp_all

lemma as_written_idem: "as_written (as_written v) = as_written v"
proof (induction v)
  case (JNum x)
  show ?case by (cases x) simp_all
next
  case (JArr xs)
  then show ?case by simp
next
  case (JObj ps)
  have "as_written (as_written (snd p)) = as_written (snd p)" if "p \<in> set ps" for p
  proof -
    have "snd p \<in> Basic_BNFs.snds p"
      by (cases p) simp
    with that JObj show ?thesis by blast
  qed
  then show ?case by simp
qed simp_all

lemma canonical_map_values:
  "canonical (map (\<lambda>p. (fst p, f (snd p))) ps) = canonical ps"
  by (simp add: canonical_def sorted_wrt_map)

lemma well_formed_as_written: "well_formed v \<Longrightarrow> well_formed (as_written v)"
proof (induction v)
  case (JNum x)
  then show ?case by (cases x) simp_all
next
  case (JArr xs)
  then show ?case by (simp add: list_all_iff)
next
  case (JObj ps)
  have "well_formed (as_written (snd p))" if "p \<in> set ps" for p
  proof -
    have "snd p \<in> Basic_BNFs.snds p"
      by (cases p) simp
    with that JObj show ?thesis by (auto simp: list_all_iff)
  qed
  with JObj.prems show ?case
    by (simp add: canonical_map_values list_all_iff)
qed simp_all

lemma JSON_parse_stringify:
  assumes "well_formed v"
  shows "JSON_parse (JSON_stringify v) = Some (as_written v)"
  using JSON_roundtrip [OF well_formed_as_written [OF assms] as_written_idem]
  by (simp add: stringify_as_written)

lemma join_with_set: "set (join_with c xs) \<subseteq> insert c (\<Union> (set ` set xs))"
  by (induction c xs rule: join_with.induct) auto

lemma number_to_string_no_newline: "0x0A \<notin> set (number_to_string (Finite m e))"
proof
  assume "0x0A \<in> set (number_to_string (Finite m e))"
  from number_to_string_units [OF this] show False
    by (simp add: is_digit_def)
qed

lemma stringify_no_newline: "0x0A \<notin> set (JSON_stringify v)"
proof (induction v)
  case JNull
  show ?case by (simp add: js_def)
next
  case (JBool b)
  show ?case by (simp add: js_def)
next
  case (JNum x)
  show ?case by (cases x) (simp_all add: number_to_string_no_newline js_def)
next
  case (JStr u)
  show ?case by (simp add: QuoteJSONString_no_newline)
next
  case (JArr xs)
  have "0x0A \<notin> insert 0x2C (\<Union> (set ` set (map JSON_stringify xs)))"
    using JArr by auto
  with join_with_set [where c = "0x2C" and xs = "map JSON_stringify xs"] show ?case
    by auto
next
  case (JObj ps)
  have "0x0A \<notin> set (QuoteJSONString (fst p) @ 0x3A # JSON_stringify (snd p))"
    if "p \<in> set ps" for p
  proof -
    have "snd p \<in> Basic_BNFs.snds p"
      by (cases p) simp
    with that JObj have "0x0A \<notin> set (JSON_stringify (snd p))"
      by blast
    then show ?thesis
      using QuoteJSONString_no_newline [of "fst p"] by simp
  qed
  then have "0x0A \<notin> insert 0x2C (\<Union> (set ` set
      (map (\<lambda>p. QuoteJSONString (fst p) @ 0x3A # JSON_stringify (snd p)) ps)))"
    by auto
  with join_with_set [where c = "0x2C"
      and xs = "map (\<lambda>p. QuoteJSONString (fst p) @ 0x3A # JSON_stringify (snd p)) ps"]
  show ?case
    by auto
qed

lemma stringify_nonempty: "JSON_stringify v \<noteq> []"
proof (cases v)
  case (JNum x)
  show ?thesis
  proof (cases x)
    case (Finite m e)
    have "number_to_string (Finite m e) \<noteq> []"
      by (auto simp: number_to_string_def digits_text_def js_def Let_def show_nat_nonempty)
    with JNum Finite show ?thesis by simp
  next
    case (Infinite neg)
    with JNum show ?thesis by (simp add: js_def)
  qed
qed (simp_all add: js_def QuoteJSONString_def)

section \<open>Routing\<close>

lemma js_distinct [simp]:
  "js ''POST'' \<noteq> js ''OPTIONS''" "js ''GET'' \<noteq> js ''OPTIONS''"
  "js ''POST'' \<noteq> js ''GET''" "js ''GET'' \<noteq> js ''POST''"
  "js ''/debug'' \<noteq> js ''/health''" "js ''/debug'' \<noteq> js ''/logs''"
  "js ''/debug'' \<noteq> js ''/clear''" "js ''/clear'' \<noteq> js ''/health''"
  "js ''/clear'' \<noteq> js ''/logs''" "js ''/logs'' \<noteq> js ''/health''"
  by (simp_all add: js_def)

text \<open>The numbers of the examples: each is the binary64 that its digits stand for.\<close>

lemma to_double_1: "to_double 1 0 = Finite 1 0"
  by code_simp

lemma to_double_2: "to_double 2 0 = Finite 2 0"
  by code_simp

lemma to_double_5: "to_double 5 0 = Finite 5 0"
  by code_simp

lemma to_double_3947: "to_double 3947 0 = Finite 3947 0"
  by code_simp

lemma to_double_now_id: "to_double 1700000000123 0 = Finite 1700000000123 0"
  by code_simp

lemma to_double_now_stamp: "to_double 1700000000124 0 = Finite 1700000000124 0"
  by code_simp

lemmas to_double_eval =
  to_double_zero to_double_1 to_double_2 to_double_5 to_double_3947 to_double_now_id
  to_double_now_stamp

lemma number_of_nat_0: "number_of_nat 0 = Finite 0 0"
  by (simp add: number_of_nat_def to_double_zero)

lemma number_of_nat_3947: "number_of_nat 3947 = Finite 3947 0"
  by (simp add: number_of_nat_def to_double_3947)

lemma health_body_3947:
  \<open>JSON_stringify
      (JObj [(js ''status'', JStr (js ''ok'')), (js ''logCount'', JNum (Finite 0 0)),
             (js ''port'', JNum (Finite 3947 0))])
    = js ''{"status":"ok","logCount":0,"port":3947}''\<close>
  by (simp add: js_def QuoteJSONString_def escape_unit_def is_lead_def is_trail_def
      number_to_string_def digits_text_def show_nat.simps digit_of_def Let_def)

lemma parse_null: "JSON_parse (js ''null'') = Some JNull"
  by (simp add: JSON_parse_def parse_value.simps js_def skip_ws_def is_ws_def scalar_def
      literal_def)

lemma parse_not_json: "JSON_parse (js ''not json'') = None"
  by (simp add: JSON_parse_def parse_value.simps js_def skip_ws_def is_ws_def scalar_def
      literal_def)

lemma parse_empty_object: "JSON_parse (js ''{}'') = Some (JObj [])"
  by (simp add: JSON_parse_def parse_value.simps js_def skip_ws_def is_ws_def)

lemma handle_cases:
  "handle PORT ev sv req = Crashed \<or>
   (\<exists>code hs b sv'. handle PORT ev sv req = Responded (reply code hs b) sv')"
  by (auto simp: handle_def on_end_def readFileSync_def writeFileSync_def existsSync_def
      split: sum.splits option.splits prod.splits)

text \<open>
  A request that is no \<open>OPTIONS\<close>, whose path is not \<open>/health\<close> and that is none of
  \<open>GET /logs\<close>, \<open>POST /clear\<close> and \<open>POST /debug\<close> is answered with 404 in the state it
  found. A request to \<open>/health\<close> is answered with the health report whatever else it
  asks for, \<open>OPTIONS\<close> apart.
\<close>

lemma unknown_route_not_found:
  "(http_method req \<noteq> js ''OPTIONS'' \<and> url req \<noteq> js ''/health'' \<and>
    \<not> (url req = js ''/logs'' \<and> http_method req = js ''GET'') \<and>
    \<not> (url req = js ''/clear'' \<and> http_method req = js ''POST'') \<and>
    \<not> (url req = js ''/debug'' \<and> http_method req = js ''POST'') \<longrightarrow>
      handle PORT ev sv req = Responded (reply 404 [] (js ''Not found'')) sv) \<and>
   (http_method req \<noteq> js ''OPTIONS'' \<and> url req = js ''/health'' \<longrightarrow>
      handle PORT ev sv req =
        Responded
          (reply 200 [(js ''Content-Type'', js ''application/json'')]
             (JSON_stringify
                (JObj [(js ''status'', JStr (js ''ok'')),
                       (js ''logCount'', JNum (number_of_nat (logCount sv))),
                       (js ''port'', JNum (number_of_nat PORT))])))
          sv)"
  by (simp add: handle_def)

lemma unknown_route_not_found_example:
  "handle 3947 ev_ok sv_two \<lparr>http_method = js ''DELETE'', url = js ''/debug'', body = []\<rparr>
     = Responded (reply 404 [] (js ''Not found'')) sv_two \<and>
   handle 3947 ev_ok sv_two \<lparr>http_method = js ''GET'', url = js ''/health'', body = []\<rparr>
     = Responded
         (reply 200 [(js ''Content-Type'', js ''application/json'')]
            (JSON_stringify
               (JObj [(js ''status'', JStr (js ''ok'')),
                      (js ''logCount'', JNum (number_of_nat (logCount sv_two))),
                      (js ''port'', JNum (number_of_nat 3947))])))
         sv_two"
  using unknown_route_not_found
      [of "\<lparr>http_method = js ''DELETE'', url = js ''/debug'', body = []\<rparr>" 3947 ev_ok sv_two]
    unknown_route_not_found
      [of "\<lparr>http_method = js ''GET'', url = js ''/health'', body = []\<rparr>" 3947 ev_ok sv_two]
  by (simp add: js_def)

section \<open>The ingest handler\<close>

lemma key_distinct [simp]:
  "js ''hypothesisId'' \<noteq> js ''id''" "js ''hypothesisId'' \<noteq> js ''serverTimestamp''"
  "js ''location'' \<noteq> js ''id''" "js ''location'' \<noteq> js ''serverTimestamp''"
  "js ''message'' \<noteq> js ''id''" "js ''message'' \<noteq> js ''serverTimestamp''"
  "js ''id'' \<noteq> js ''serverTimestamp''"
  by (simp_all add: js_def)

lemma add_metadata_object: "add_metadata ev (JObj ps) = Inr (JObj (with_metadata ev ps))"
  by (simp add: add_metadata_def Get_def Put_def with_metadata_def id_value_def
      split: option.splits)

lemma add_metadata_other:
  assumes "d \<noteq> JNull" and "\<forall>ps. d \<noteq> JObj ps"
  shows "add_metadata ev d = Inr d"
  using assms by (cases d) (simp_all add: add_metadata_def Get_def Put_def)

lemma add_metadata_null: "add_metadata ev JNull = Inl TypeError"
  by (simp add: add_metadata_def Get_def)

lemma map_of_with_metadata:
  "map_of (with_metadata ev ps) =
     (map_of ps)(js ''id'' \<mapsto> id_value ev ps,
                 js ''serverTimestamp'' \<mapsto> JNum (number_of_nat (now_stamp ev)))"
  by (simp add: with_metadata_def map_of_obj_set)

lemma echo_with_metadata: "echo lim n (JObj (with_metadata ev ps)) = echo lim n (JObj ps)"
proof -
  have g: "Get (JObj (with_metadata ev ps)) (js ''hypothesisId'') = Get (JObj ps) (js ''hypothesisId'')"
    "Get (JObj (with_metadata ev ps)) (js ''location'') = Get (JObj ps) (js ''location'')"
    "Get (JObj (with_metadata ev ps)) (js ''message'') = Get (JObj ps) (js ''message'')"
    by (simp_all add: Get_def map_of_with_metadata)
  show ?thesis
    unfolding echo_def g by (rule refl)
qed

lemma echo_add_metadata:
  assumes "add_metadata ev d = Inr d2"
  shows "echo lim n d2 = echo lim n d"
proof (cases d)
  case JNull
  with assms show ?thesis by (simp add: add_metadata_null)
next
  case (JObj ps)
  with assms show ?thesis
    by (auto simp: add_metadata_object echo_with_metadata)
qed (use assms in \<open>simp_all add: add_metadata_def Get_def Put_def\<close>)

lemma well_formed_obj_set:
  assumes "well_formed (JObj ps)" and "well_formed v"
  shows "well_formed (JObj (obj_set k v ps))"
proof -
  have "well_formed (snd p)" if "p \<in> set (obj_set k v ps)" for p
  proof -
    from that have "snd p \<in> set (map snd (obj_set k v ps))"
      by simp
    with obj_set_values [of k v ps] have "snd p = v \<or> snd p \<in> set (map snd ps)"
      by blast
    with assms show ?thesis
      by (auto simp: list_all_iff)
  qed
  with assms(1) show ?thesis
    by (simp add: canonical_obj_set list_all_iff)
qed

lemma well_formed_id_value:
  assumes "well_formed (JObj ps)"
  shows "well_formed (id_value ev ps)"
proof (cases "map_of ps (js ''id'')")
  case None
  then show ?thesis by (simp add: id_value_def)
next
  case (Some v)
  then have "(js ''id'', v) \<in> set ps"
    by (rule map_of_SomeD)
  with assms have "well_formed v"
    by (auto simp: list_all_iff)
  with Some show ?thesis
    by (simp add: id_value_def)
qed

lemma well_formed_with_metadata:
  assumes "well_formed (JObj ps)"
  shows "well_formed (JObj (with_metadata ev ps))"
  unfolding with_metadata_def number_of_nat_def
  by (intro well_formed_obj_set assms well_formed_id_value) (simp add: wf_num_to_double)

lemma add_metadata_well_formed:
  assumes "add_metadata ev d = Inr d2" and "well_formed d"
  shows "well_formed d2"
proof (cases d)
  case JNull
  with assms show ?thesis by (simp add: add_metadata_null)
next
  case (JObj ps)
  with assms show ?thesis
    using well_formed_with_metadata [of ps ev] by (simp add: add_metadata_object)
qed (use assms in \<open>simp_all add: add_metadata_def Get_def Put_def\<close>)

text \<open>
  The two assignments do not deepen the value: the new \<open>id\<close> is a string or the old
  \<open>id\<close>, and the time stamp is a number.
\<close>

lemma foldr_max_le: "foldr max (map f xs) 0 \<le> (n :: nat) \<longleftrightarrow> (\<forall>x\<in>set xs. f x \<le> n)"
  by (induction xs) auto

lemma depth_obj_set:
  assumes "depth (JObj ps) \<le> Suc n" and "depth v \<le> n"
  shows "depth (JObj (obj_set k v ps)) \<le> Suc n"
proof -
  have "depth (snd p) \<le> n" if "p \<in> set (obj_set k v ps)" for p
  proof -
    from that have "snd p \<in> set (map snd (obj_set k v ps))"
      by simp
    with obj_set_values [of k v ps] have "snd p = v \<or> snd p \<in> set (map snd ps)"
      by blast
    with assms show ?thesis
      by (auto simp: foldr_max_le)
  qed
  then show ?thesis
    by (simp add: foldr_max_le)
qed

lemma depth_id_value:
  assumes "depth (JObj ps) \<le> Suc n"
  shows "depth (id_value ev ps) \<le> n"
proof (cases "map_of ps (js ''id'')")
  case None
  then show ?thesis by (simp add: id_value_def)
next
  case (Some v)
  then have "(js ''id'', v) \<in> set ps"
    by (rule map_of_SomeD)
  with assms have "depth v \<le> n"
    by (auto simp: foldr_max_le)
  with Some show ?thesis
    by (simp add: id_value_def)
qed

lemma depth_with_metadata: "depth (JObj (with_metadata ev ps)) \<le> depth (JObj ps)"
proof -
  obtain n where n: "depth (JObj ps) = Suc n"
    by simp
  then have "depth (JObj ps) \<le> Suc n"
    by simp
  then have "depth (JObj (with_metadata ev ps)) \<le> Suc n"
    unfolding with_metadata_def
    by (intro depth_obj_set depth_id_value) simp_all
  with n show ?thesis
    by simp
qed

lemma add_metadata_depth:
  assumes "add_metadata ev d = Inr d2"
  shows "depth d2 \<le> depth d"
proof (cases d)
  case JNull
  with assms show ?thesis by (simp add: add_metadata_null)
next
  case (JObj ps)
  with assms show ?thesis
    using depth_with_metadata [of ev ps] by (simp add: add_metadata_object)
qed (use assms in \<open>simp_all add: add_metadata_def Get_def Put_def\<close>)

lemma on_end_appends:
  assumes "JSON_parse b = Some d" and "add_metadata ev d = Inr d2"
    and "depth d2 \<le> stringify_depth ev" and "\<not> storage_error ev"
  shows "on_end ev sv b =
    Responded (case echo (join_depth ev) (logCount sv + 1) d2 of
                 Inl e \<Rightarrow> reply 400 [] (js ''Invalid JSON'')
               | Inr shown \<Rightarrow> reply 200 [] (js ''ok''))
      \<lparr>log_file = Some (contents sv @ JSON_stringify d2 @ [0x0A]), logCount = logCount sv + 1\<rparr>"
  using assms
  by (simp add: on_end_def try_ingest_def stringify_within_def appendFileSync_def contents_def
      split: sum.splits)

lemma on_end_too_deep:
  assumes "JSON_parse b = Some d" and "add_metadata ev d = Inr d2"
    and "stringify_depth ev < depth d2"
  shows "on_end ev sv b = Responded (reply 400 [] (js ''Invalid JSON'')) sv"
  using assms by (simp add: on_end_def try_ingest_def stringify_within_def)

lemma map_of_as_written:
  "map_of (map (\<lambda>p. (fst p, as_written (snd p))) ps) k = map_option as_written (map_of ps k)"
  by (induction ps) auto

lemma handle_post_debug:
  "http_method req = js ''POST'' \<Longrightarrow> url req = js ''/debug'' \<Longrightarrow>
   handle PORT ev sv req = on_end ev sv (body req)"
  by (simp add: handle_def)

lemmas parse_eval =
  JSON_parse_def parse_value.simps parse_elements.simps parse_members.simps scalar_def
  literal_def skip_ws_def is_ws_def js_def cons_unit_def parse_number_def scan_int_def
  scan_frac_def scan_exp_def scan_sign_def scan_digits_def is_digit_def digits_val_def
  digit_val_def to_double_eval build_object_def goes_before_def is_index_def unescape_def hex4_def hex_val_def

lemmas stringify_eval =
  QuoteJSONString_def escape_unit_def is_lead_def is_trail_def number_to_string_def
  digits_text_def show_nat.simps digit_of_def Let_def js_def number_of_nat_def to_double_eval

lemma parse_message_x:
  \<open>JSON_parse (js ''{"message":"x"}'') = Some (JObj [(js ''message'', JStr (js ''x''))])\<close>
  by (simp add: parse_eval)

lemma parse_id_zero:
  \<open>JSON_parse (js ''{"id":0}'') = Some (JObj [(js ''id'', JNum (Finite 0 0))])\<close>
  by (simp add: parse_eval)

lemma parse_id_abc:
  \<open>JSON_parse (js ''{"id":"abc"}'') = Some (JObj [(js ''id'', JStr (js ''abc''))])\<close>
  by (simp add: parse_eval)

lemma parse_five: "JSON_parse (js ''5'') = Some (JNum (Finite 5 0))"
  by (simp add: parse_eval)

lemma echo_message_x:
  "echo lim 1 (JObj [(js ''message'', JStr (js ''x''))]) = Inr (js ''[1]  undefined: x'')"
  by (simp add: echo_def Get_def template_def stringify_eval)

lemma new_id_ev_ok: "new_id ev_ok = js ''log_1700000000123_k3x9''"
  by (simp add: new_id_def ev_ok_def stringify_eval)

lemma stamp_ev_ok: "number_of_nat (now_stamp ev_ok) = Finite 1700000000124 0"
  by (simp add: ev_ok_def stringify_eval)

lemma ingest_id_zero:
  \<open>handle 3947 ev_ok sv_empty
      \<lparr>http_method = js ''POST'', url = js ''/debug'', body = js ''{"id":0}''\<rparr>
    = Responded (reply 200 [] (js ''ok''))
        \<lparr>log_file = Some (js ''{"id":"log_1700000000123_k3x9","serverTimestamp":1700000000124}''
                           @ [0x0A]),
         logCount = 1\<rparr>\<close>
proof -
  have m: "add_metadata ev_ok (JObj [(js ''id'', JNum (Finite 0 0))])
      = Inr (JObj [(js ''id'', JStr (js ''log_1700000000123_k3x9'')),
                   (js ''serverTimestamp'', JNum (Finite 1700000000124 0))])"
    by (simp add: add_metadata_def Get_def Put_def new_id_ev_ok stamp_ev_ok)
      (simp add: js_def goes_before_def is_index_def is_digit_def)
  have s: \<open>JSON_stringify (JObj [(js ''id'', JStr (js ''log_1700000000123_k3x9'')),
                   (js ''serverTimestamp'', JNum (Finite 1700000000124 0))])
      = js ''{"id":"log_1700000000123_k3x9","serverTimestamp":1700000000124}''\<close>
    by (simp add: stringify_eval)
  have e: "echo (join_depth ev_ok) 1 (JObj [(js ''id'', JStr (js ''log_1700000000123_k3x9'')),
                   (js ''serverTimestamp'', JNum (Finite 1700000000124 0))])
      = Inr (js ''[1]  undefined: undefined'')"
    by (simp add: echo_def Get_def template_def stringify_eval)
  have ok: "\<not> storage_error ev_ok"
    by (simp add: ev_ok_def)
  have dp: "depth (JObj [(js ''id'', JStr (js ''log_1700000000123_k3x9'')),
                   (js ''serverTimestamp'', JNum (Finite 1700000000124 0))]) \<le> stringify_depth ev_ok"
    by (simp add: ev_ok_def)
  have c: "contents sv_empty = []" "logCount sv_empty + 1 = 1"
    by (simp_all add: contents_def sv_empty_def)
  from on_end_appends [OF parse_id_zero m dp ok, of sv_empty]
  have \<open>on_end ev_ok sv_empty (js ''{"id":0}'')
      = Responded (reply 200 [] (js ''ok''))
          \<lparr>log_file = Some (js ''{"id":"log_1700000000123_k3x9","serverTimestamp":1700000000124}''
                             @ [0x0A]),
           logCount = 1\<rparr>\<close>
    by (simp only: c s e sum.case append_Nil)
  then show ?thesis
    by (simp add: handle_def)
qed

lemma log_of_snoc: "log_of (vs @ [v]) = log_of vs @ JSON_stringify v @ [0x0A]"
  by (simp add: log_of_def)

lemma split_lines_line:
  "0x0A \<notin> set l \<Longrightarrow> split_lines (l @ 0x0A # rest) = l # split_lines rest"
  by (induction l) auto

lemma split_lines_log_of: "split_lines (log_of vs) = map JSON_stringify vs @ [[]]"
proof (induction vs)
  case Nil
  show ?case by (simp add: log_of_def)
next
  case (Cons v vs)
  have "log_of (v # vs) = JSON_stringify v @ 0x0A # log_of vs"
    by (simp add: log_of_def)
  with Cons show ?case
    by (simp add: split_lines_line stringify_no_newline)
qed

lemma on_end_log:
  assumes "contents sv = log_of vs" and "list_all well_formed vs"
    and "on_end ev sv b = Responded r sv'"
  shows "\<exists>vs'. contents sv' = log_of vs' \<and> list_all well_formed vs'"
proof (cases "JSON_parse b")
  case None
  with assms show ?thesis
    by (auto simp: on_end_def try_ingest_def)
next
  case (Some d)
  show ?thesis
  proof (cases "add_metadata ev d")
    case (Inl e)
    with Some assms show ?thesis
      by (auto simp: on_end_def try_ingest_def)
  next
    case (Inr d2)
    show ?thesis
    proof (cases "storage_error ev \<or> stringify_depth ev < depth d2")
      case True
      with Some Inr assms show ?thesis
        by (auto simp: on_end_def try_ingest_def stringify_within_def appendFileSync_def
            split: if_splits)
    next
      case False
      then have "depth d2 \<le> stringify_depth ev" "\<not> storage_error ev"
        by simp_all
      from on_end_appends [OF Some Inr this, of sv] assms(3)
      have "contents sv' = contents sv @ JSON_stringify d2 @ [0x0A]"
        by (auto simp: contents_def)
      then have "contents sv' = log_of (vs @ [d2])"
        by (simp add: assms(1) log_of_snoc)
      moreover have "list_all well_formed (vs @ [d2])"
        using assms(2) add_metadata_well_formed [OF Inr JSON_parse_wf [OF Some]] by simp
      ultimately show ?thesis
        by blast
    qed
  qed
qed

lemma handle_log:
  assumes "contents sv = log_of vs" and "list_all well_formed vs"
    and "handle PORT ev sv req = Responded r sv'"
  shows "\<exists>vs'. contents sv' = log_of vs' \<and> list_all well_formed vs'"
proof -
  consider (same) "sv' = sv" | (clear) "contents sv' = []"
    | (ingest) "on_end ev sv (body req) = Responded r sv'"
    using assms(3)
    by (auto simp: handle_def writeFileSync_def contents_def
        split: if_splits sum.splits)
  then show ?thesis
  proof cases
    case same
    with assms show ?thesis by blast
  next
    case clear
    then have "contents sv' = log_of []" "list_all well_formed []"
      by (simp_all add: log_of_def)
    then show ?thesis by blast
  next
    case ingest
    from on_end_log [OF assms(1,2) this] show ?thesis .
  qed
qed

lemma serve_log:
  assumes "contents sv = log_of vs" and "list_all well_formed vs"
    and "serve PORT sv trace = Some (rs, sv')"
  shows "\<exists>vs'. contents sv' = log_of vs' \<and> list_all well_formed vs'"
  using assms
proof (induction trace arbitrary: sv vs rs)
  case Nil
  then show ?case by auto
next
  case (Cons a trace)
  obtain ev req where a: "a = (ev, req)"
    by (cases a)
  from Cons.prems(3) obtain r sv1 rs1 where
    h: "handle PORT ev sv req = Responded r sv1" and s: "serve PORT sv1 trace = Some (rs1, sv')"
    by (auto simp: a split: outcome.splits option.splits)
  from handle_log [OF Cons.prems(1,2) h] obtain vs1 where
    "contents sv1 = log_of vs1" "list_all well_formed vs1"
    by blast
  from Cons.IH [OF this s] show ?case .
qed

lemma startup_log: "startup ev old = Some sv \<Longrightarrow> contents sv = log_of []"
  by (auto simp: startup_def writeFileSync_def contents_def log_of_def split: if_splits)

lemma get_logs_content:
  assumes "handle PORT ev sv \<lparr>http_method = js ''GET'', url = js ''/logs'', body = b\<rparr> = Responded r sv'"
    and "statusCode r = 200"
  shows "content r = contents sv"
  using assms
  by (auto simp: handle_def existsSync_def readFileSync_def contents_def reply_def
      split: if_splits option.splits)

lemma ingest_five:
  "handle 3947 ev_ok sv_empty \<lparr>http_method = js ''POST'', url = js ''/debug'', body = js ''5''\<rparr>
    = Responded (reply 200 [] (js ''ok'')) \<lparr>log_file = Some (js ''5'' @ [0x0A]), logCount = 1\<rparr>"
proof -
  have m: "add_metadata ev_ok (JNum (Finite 5 0)) = Inr (JNum (Finite 5 0))"
    by (simp add: add_metadata_other)
  have s: "JSON_stringify (JNum (Finite 5 0)) = js ''5''"
    by (simp add: stringify_eval)
  have e: "echo (join_depth ev_ok) 1 (JNum (Finite 5 0)) = Inr (js ''[1]  undefined: undefined'')"
    by (simp add: echo_def Get_def template_def stringify_eval)
  have ok: "\<not> storage_error ev_ok"
    by (simp add: ev_ok_def)
  have dp: "depth (JNum (Finite 5 0)) \<le> stringify_depth ev_ok"
    by simp
  have c: "contents sv_empty = []" "logCount sv_empty + 1 = 1"
    by (simp_all add: contents_def sv_empty_def)
  from on_end_appends [OF parse_five m dp ok, of sv_empty]
  have "on_end ev_ok sv_empty (js ''5'')
      = Responded (reply 200 [] (js ''ok''))
          \<lparr>log_file = Some (js ''5'' @ [0x0A]), logCount = 1\<rparr>"
    by (simp only: c s e sum.case append_Nil)
  then show ?thesis
    by (simp add: handle_def)
qed

text \<open>
  The console line is computed after the append: when that throws, the line is in the
  file and counted, and the answer is 400.
\<close>

lemma parse_location_toString:
  \<open>JSON_parse (js ''{"location":{"toString":1}}'')
     = Some (JObj [(js ''location'', JObj [(js ''toString'', JNum (Finite 1 0))])])\<close>
  by (simp add: parse_eval)

lemma echo_location_toString:
  "echo lim n (JObj [(js ''location'', JObj [(js ''toString'', JNum (Finite 1 0))])]) = Inl TypeError"
  by (simp add: echo_def Get_def template_def js_def)

lemma console_line_failure_after_append:
  \<open>\<exists>line. handle 3947 ev_ok sv_empty
      \<lparr>http_method = js ''POST'', url = js ''/debug'',
       body = js ''{"location":{"toString":1}}''\<rparr>
    = Responded (reply 400 [] (js ''Invalid JSON''))
        \<lparr>log_file = Some (line @ [0x0A]), logCount = 1\<rparr>\<close>
proof -
  let ?ps = "[(js ''location'', JObj [(js ''toString'', JNum (Finite 1 0))])]"
  have ok: "\<not> storage_error ev_ok"
    by (simp add: ev_ok_def)
  have e: "echo lim n (JObj (with_metadata ev_ok ?ps)) = Inl TypeError" for lim n
    by (simp only: echo_with_metadata echo_location_toString)
  have "depth (JObj ?ps) \<le> stringify_depth ev_ok"
    by (simp add: ev_ok_def)
  with depth_with_metadata [of ev_ok ?ps]
  have dp: "depth (JObj (with_metadata ev_ok ?ps)) \<le> stringify_depth ev_ok"
    by (rule order_trans)
  from on_end_appends [OF parse_location_toString add_metadata_object dp ok, of sv_empty]
  show ?thesis
    by (simp add: handle_def e contents_def sv_empty_def)
qed

text \<open>
  A string, number, boolean or array is logged as it is, with no \<open>id\<close> and no
  \<open>serverTimestamp\<close>.
\<close>

lemma echo_other_value:
  assumes "d \<noteq> JNull" and "\<forall>ps. d \<noteq> JObj ps"
  shows "echo lim n d = Inr (js ''['' @ number_to_string (number_of_nat n) @ js ''] ''
      @ [] @ js '' '' @ js ''undefined'' @ js '': '' @ js ''undefined'')"
  using assms by (cases d) (simp_all add: echo_def Get_def template_def)

lemma ingest_other_value:
  assumes "http_method req = js ''POST''" and "url req = js ''/debug''"
    and "JSON_parse (body req) = Some d" and "d \<noteq> JNull" and "\<forall>ps. d \<noteq> JObj ps"
    and "depth d \<le> stringify_depth ev" and "\<not> storage_error ev"
  shows "handle PORT ev sv req =
    Responded (reply 200 [] (js ''ok''))
      \<lparr>log_file = Some (contents sv @ JSON_stringify d @ [0x0A]), logCount = logCount sv + 1\<rparr>"
  using on_end_appends [OF assms(3) add_metadata_other [OF assms(4,5)] assms(6,7), of sv]
  by (simp add: handle_post_debug [OF assms(1,2)] echo_other_value [OF assms(4,5)])

text \<open>
  A number is logged as the binary64 it was parsed to: \<open>9007199254740993\<close> is not a
  binary64, and the line has its neighbour \<open>9007199254740992\<close>.
\<close>

lemma to_double_rounds: "to_double 9007199254740993 0 = Finite 9007199254740992 0"
  by code_simp

lemma parse_rounds: "JSON_parse (js ''9007199254740993'') = Some (JNum (Finite 9007199254740992 0))"
  by (simp add: parse_eval to_double_rounds)

lemma ingest_rounds:
  "handle 3947 ev_ok sv_empty
      \<lparr>http_method = js ''POST'', url = js ''/debug'', body = js ''9007199254740993''\<rparr>
    = Responded (reply 200 [] (js ''ok''))
        \<lparr>log_file = Some (js ''9007199254740992'' @ [0x0A]), logCount = 1\<rparr>"
proof -
  let ?req = "\<lparr>http_method = js ''POST'', url = js ''/debug'', body = js ''9007199254740993''\<rparr>"
  have "JSON_stringify (JNum (Finite 9007199254740992 0)) = js ''9007199254740992''"
    by (simp add: stringify_eval)
  moreover have "JSON_parse (body ?req) = Some (JNum (Finite 9007199254740992 0))"
    by (simp add: parse_rounds)
  moreover have "depth (JNum (Finite 9007199254740992 0)) \<le> stringify_depth ev_ok"
    "\<not> storage_error ev_ok"
    by (simp_all add: ev_ok_def)
  ultimately show ?thesis
    using ingest_other_value [of ?req "JNum (Finite 9007199254740992 0)" ev_ok 3947 sv_empty]
    by (simp add: contents_def sv_empty_def)
qed

text \<open>
  A value nested more deeply than \<open>JSON.stringify\<close> has stack for is answered with 400,
  and nothing is appended or counted.
\<close>

lemma parse_nested: "JSON_parse (js ''[[5]]'') = Some (JArr [JArr [JNum (Finite 5 0)]])"
  by (simp add: parse_eval)

lemma ingest_too_deep:
  "handle 3947 (ev_ok\<lparr>stringify_depth := 1\<rparr>) sv_two
      \<lparr>http_method = js ''POST'', url = js ''/debug'', body = js ''[[5]]''\<rparr>
    = Responded (reply 400 [] (js ''Invalid JSON'')) sv_two"
proof -
  have "add_metadata (ev_ok\<lparr>stringify_depth := 1\<rparr>) (JArr [JArr [JNum (Finite 5 0)]])
      = Inr (JArr [JArr [JNum (Finite 5 0)]])"
    by (simp add: add_metadata_other)
  from on_end_too_deep [OF parse_nested this, of sv_two] show ?thesis
    by (simp add: handle_def)
qed

section \<open>The claims\<close>

text \<open>
  Claim C10. The body \<open>null\<close> is valid JSON, and \<open>JSON.parse\<close> returns \<open>null\<close> for
  it; reading \<open>data.id\<close> then throws, the \<open>catch\<close> answers 400, and neither the file
  nor the counter has changed.
\<close>

theorem ingest_null_rejected:
  "http_method req = js ''POST'' \<Longrightarrow> url req = js ''/debug'' \<Longrightarrow> body req = js ''null'' \<Longrightarrow>
   JSON_parse (body req) = Some JNull \<and>
   handle PORT ev sv req = Responded (reply 400 [] (js ''Invalid JSON'')) sv"
  by (simp add: handle_def on_end_def try_ingest_def add_metadata_def parse_null Get_def)

theorem ingest_null_rejected_witness:
  "handle 3947 ev_ok sv_two \<lparr>http_method = js ''POST'', url = js ''/debug'', body = js ''null''\<rparr>
     = Responded (reply 400 [] (js ''Invalid JSON'')) sv_two"
  using ingest_null_rejected
    [of "\<lparr>http_method = js ''POST'', url = js ''/debug'', body = js ''null''\<rparr>" 3947 ev_ok sv_two]
  by simp

text \<open>
  Claim C6. A body that \<open>JSON.parse\<close> rejects, posted to \<open>/debug\<close>, is answered with
  400, and the file and the counter are as before.
\<close>

theorem ingest_invalid_json_rejected:
  "http_method req = js ''POST'' \<Longrightarrow> url req = js ''/debug'' \<Longrightarrow> JSON_parse (body req) = None \<Longrightarrow>
   handle PORT ev sv req = Responded (reply 400 [] (js ''Invalid JSON'')) sv"
  by (simp add: handle_def on_end_def try_ingest_def)

theorem ingest_invalid_json_rejected_witness:
  "JSON_parse (js ''not json'') = None \<and>
   handle 3947 ev_ok sv_two
      \<lparr>http_method = js ''POST'', url = js ''/debug'', body = js ''not json''\<rparr>
     = Responded (reply 400 [] (js ''Invalid JSON'')) sv_two"
  using ingest_invalid_json_rejected
    [of "\<lparr>http_method = js ''POST'', url = js ''/debug'', body = js ''not json''\<rparr>" 3947 ev_ok
      sv_two]
  by (simp add: parse_not_json)

text \<open>
  Claim C9, amended. Every response that the request listener writes, whatever the
  method, the path, the body and the errors of the request, has the header
  \<open>Access-Control-Allow-Origin: *\<close>, and an \<open>OPTIONS\<close> request to any path is answered
  with 204, the three CORS headers and an empty body, in the state it found. It does
  not hold of every response of the server: a request that Node's HTTP parser rejects
  before the listener runs, such as \<open>FOO /debug\<close>, is answered by Node with
  \<open>400 Bad Request\<close>, and that response has no CORS header.
\<close>

theorem cors_headers_on_every_response:
  "(handle PORT ev sv req = Responded r sv' \<longrightarrow>
      (js ''Access-Control-Allow-Origin'', js ''*'') \<in> set (headers r)) \<and>
   (http_method req = js ''OPTIONS'' \<longrightarrow>
      handle PORT ev sv req =
        Responded \<lparr>statusCode = 204, headers = cors_headers, content = []\<rparr> sv)"
proof -
  have "(js ''Access-Control-Allow-Origin'', js ''*'') \<in> set (headers (reply code hs b))"
    for code hs b
    by (simp add: reply_def cors_headers_def)
  moreover have "handle PORT ev sv req = Responded (reply 204 [] []) sv"
    if "http_method req = js ''OPTIONS''"
    using that by (simp add: handle_def)
  ultimately show ?thesis
    using handle_cases [of PORT ev sv req] by (auto simp: reply_def)
qed

theorem cors_headers_on_every_response_witness:
  "handle 3947 ev_fail sv_two \<lparr>http_method = js ''OPTIONS'', url = js ''/clear'', body = []\<rparr>
     = Responded \<lparr>statusCode = 204, headers = cors_headers, content = []\<rparr> sv_two \<and>
   (js ''Access-Control-Allow-Origin'', js ''*'') \<in> set cors_headers"
  using cors_headers_on_every_response [of 3947 ev_fail sv_two
      "\<lparr>http_method = js ''OPTIONS'', url = js ''/clear'', body = []\<rparr>"
      "\<lparr>statusCode = 204, headers = cors_headers, content = []\<rparr>" sv_two]
  by simp

theorem unknown_method_without_cors:
  "dispatch METHODS 3947 ev_ok sv_two \<lparr>http_method = js ''FOO'', url = js ''/debug'', body = []\<rparr>
     = Refused \<lparr>statusCode = 400, headers = [(js ''Connection'', js ''close'')], content = []\<rparr> \<and>
   (js ''Access-Control-Allow-Origin'', js ''*'') \<notin> set [(js ''Connection'', js ''close'')]"
  by (simp add: dispatch_def METHODS_def js_def)

text \<open>
  Claim C7. A \<open>POST /clear\<close> whose write succeeds is answered with 200 and leaves the
  file empty and the counter at zero; in that state \<open>GET /logs\<close> returns the empty
  body (when its read succeeds) and \<open>/health\<close> reports \<open>logCount\<close> 0.
\<close>

theorem clear_empties_log_and_counter:
  assumes "http_method req = js ''POST''" and "url req = js ''/clear''" and "\<not> storage_error ev"
  shows "\<exists>sv'. handle PORT ev sv req = Responded (reply 200 [] (js ''Logs cleared'')) sv' \<and>
      log_file sv' = Some [] \<and> logCount sv' = 0 \<and>
      (\<not> storage_error ev' \<longrightarrow>
         handle PORT ev' sv' \<lparr>http_method = js ''GET'', url = js ''/logs'', body = b\<rparr> =
           Responded (reply 200 [(js ''Content-Type'', js ''application/x-ndjson'')] []) sv') \<and>
      handle PORT ev'' sv' \<lparr>http_method = js ''GET'', url = js ''/health'', body = b'\<rparr> =
        Responded
          (reply 200 [(js ''Content-Type'', js ''application/json'')]
             (JSON_stringify
                (JObj [(js ''status'', JStr (js ''ok'')), (js ''logCount'', JNum (Finite 0 0)),
                       (js ''port'', JNum (number_of_nat PORT))])))
          sv'"
  using assms
  by (simp add: handle_def writeFileSync_def readFileSync_def existsSync_def number_of_nat_0)

theorem clear_empties_log_and_counter_witness:
  \<open>handle 3947 ev_ok sv_two \<lparr>http_method = js ''POST'', url = js ''/clear'', body = []\<rparr>
     = Responded (reply 200 [] (js ''Logs cleared'')) sv_empty \<and>
   handle 3947 ev_ok sv_empty \<lparr>http_method = js ''GET'', url = js ''/logs'', body = []\<rparr>
     = Responded (reply 200 [(js ''Content-Type'', js ''application/x-ndjson'')] []) sv_empty \<and>
   handle 3947 ev_ok sv_empty \<lparr>http_method = js ''GET'', url = js ''/health'', body = []\<rparr>
     = Responded (reply 200 [(js ''Content-Type'', js ''application/json'')]
         (js ''{"status":"ok","logCount":0,"port":3947}'')) sv_empty\<close>
proof -
  have ok: "\<not> storage_error ev_ok"
    by (simp add: ev_ok_def)
  from clear_empties_log_and_counter
    [of "\<lparr>http_method = js ''POST'', url = js ''/clear'', body = []\<rparr>" ev_ok 3947 sv_two ev_ok
      "[]" ev_ok "[]"] ok
  obtain sv' where
    h: "handle 3947 ev_ok sv_two \<lparr>http_method = js ''POST'', url = js ''/clear'', body = []\<rparr>
          = Responded (reply 200 [] (js ''Logs cleared'')) sv'"
      "log_file sv' = Some []" "logCount sv' = 0"
      "handle 3947 ev_ok sv' \<lparr>http_method = js ''GET'', url = js ''/logs'', body = []\<rparr> =
           Responded (reply 200 [(js ''Content-Type'', js ''application/x-ndjson'')] []) sv'"
      "handle 3947 ev_ok sv' \<lparr>http_method = js ''GET'', url = js ''/health'', body = []\<rparr> =
        Responded
          (reply 200 [(js ''Content-Type'', js ''application/json'')]
             (JSON_stringify
                (JObj [(js ''status'', JStr (js ''ok'')), (js ''logCount'', JNum (Finite 0 0)),
                       (js ''port'', JNum (number_of_nat 3947))])))
          sv'"
    by auto
  have "sv' = sv_empty"
    using h(2,3) by (simp add: sv_empty_def)
  with h show ?thesis
    by (simp only: number_of_nat_3947 health_body_3947 simp_thms)
qed

text \<open>
  Claim C8. Starting the server writes the log file empty, whatever it held, and sets
  the counter to zero, before any request is served; when that write fails the
  process ends and no server exists. The first ingest after the start whose value
  \<open>JSON.stringify\<close> can serialise and whose append succeeds therefore leaves a file of
  exactly one line.
\<close>

theorem startup_truncates:
  "(\<not> storage_error ev0 \<longrightarrow> startup ev0 old = Some \<lparr>log_file = Some [], logCount = 0\<rparr>) \<and>
   (storage_error ev0 \<longrightarrow> startup ev0 old = None) \<and>
   (startup ev0 old = Some sv0 \<and> JSON_parse b = Some d \<and> add_metadata ev d = Inr d2 \<and>
    depth d2 \<le> stringify_depth ev \<and> \<not> storage_error ev \<longrightarrow>
      (\<exists>r. handle PORT ev sv0 \<lparr>http_method = js ''POST'', url = js ''/debug'', body = b\<rparr> =
         Responded r \<lparr>log_file = Some (JSON_stringify d2 @ [0x0A]), logCount = 1\<rparr>))"
proof -
  have "\<exists>r. handle PORT ev sv0 \<lparr>http_method = js ''POST'', url = js ''/debug'', body = b\<rparr> =
      Responded r \<lparr>log_file = Some (JSON_stringify d2 @ [0x0A]), logCount = 1\<rparr>"
    if "startup ev0 old = Some sv0" "JSON_parse b = Some d" "add_metadata ev d = Inr d2"
      "depth d2 \<le> stringify_depth ev" "\<not> storage_error ev"
  proof -
    from that(1) have "contents sv0 = []" "logCount sv0 = 0"
      by (auto simp: startup_def writeFileSync_def contents_def split: if_splits)
    with on_end_appends [OF that(2,3,4,5), of sv0] show ?thesis
      by (simp add: handle_def)
  qed
  then show ?thesis
    by (auto simp: startup_def writeFileSync_def)
qed

theorem startup_truncates_witness:
  "startup ev_ok (Some (js ''stale'')) = Some sv_empty \<and>
   JSON_parse (js ''5'') = Some (JNum (Finite 5 0)) \<and>
   add_metadata ev_ok (JNum (Finite 5 0)) = Inr (JNum (Finite 5 0)) \<and>
   depth (JNum (Finite 5 0)) \<le> stringify_depth ev_ok \<and>
   (\<exists>r. handle 3947 ev_ok sv_empty \<lparr>http_method = js ''POST'', url = js ''/debug'', body = js ''5''\<rparr> =
      Responded r \<lparr>log_file = Some (JSON_stringify (JNum (Finite 5 0)) @ [0x0A]), logCount = 1\<rparr>)"
proof -
  have a: "startup ev_ok (Some (js ''stale'')) = Some sv_empty"
    by (simp add: startup_def writeFileSync_def ev_ok_def sv_empty_def)
  have m: "add_metadata ev_ok (JNum (Finite 5 0)) = Inr (JNum (Finite 5 0))"
    by (simp add: add_metadata_other)
  have ok: "\<not> storage_error ev_ok" "depth (JNum (Finite 5 0)) \<le> stringify_depth ev_ok"
    by (simp_all add: ev_ok_def)
  from startup_truncates [of ev_ok "Some (js ''stale'')" sv_empty "js ''5''" "JNum (Finite 5 0)"
      ev_ok "JNum (Finite 5 0)" 3947] a parse_five m ok
  show ?thesis
    by blast
qed

text \<open>
  Claim C1, amended. A body that parses to a value other than \<open>null\<close>, posted to
  \<open>/debug\<close> while the value is not nested more deeply than \<open>JSON.stringify\<close> has
  stack for, the append succeeds and the console line can be computed: exactly one
  line is appended, the counter grows by one, the answer is 200, and the line parses
  back to the logged value. For an object that is an object with the fields of the
  payload, except \<open>id\<close> (the caller's if truthy, a new one otherwise) and
  \<open>serverTimestamp\<close> (the clock's). A string, a number, a boolean or an array is logged
  as it is, with neither of the two. The payload is what \<open>JSON.parse\<close> made of the
  body, every number the binary64 nearest to its literal, and a number too large for a
  binary64 is written as \<open>null\<close>.
\<close>

theorem ingest_appends_one_line:
  assumes "http_method req = js ''POST''" and "url req = js ''/debug''"
    and "JSON_parse (body req) = Some d" and "d \<noteq> JNull"
    and "depth d \<le> stringify_depth ev"
    and "\<not> storage_error ev"
    and "echo (join_depth ev) (logCount sv + 1) d = Inr console_line"
  shows "\<exists>line v.
      handle PORT ev sv req =
        Responded (reply 200 [] (js ''ok''))
          \<lparr>log_file = Some (contents sv @ line @ [0x0A]), logCount = logCount sv + 1\<rparr> \<and>
      0x0A \<notin> set line \<and>
      JSON_parse line = Some v \<and>
      (case d of
         JObj ps \<Rightarrow>
           (\<exists>ps'. v = JObj ps' \<and>
              map_of ps' (js ''id'') =
                Some (case map_of ps (js ''id'') of
                        None \<Rightarrow> JStr (new_id ev)
                      | Some x \<Rightarrow> if ToBoolean (Some x) then as_written x else JStr (new_id ev)) \<and>
              map_of ps' (js ''serverTimestamp'') =
                Some (as_written (JNum (number_of_nat (now_stamp ev)))) \<and>
              (\<forall>k. k \<noteq> js ''id'' \<and> k \<noteq> js ''serverTimestamp'' \<longrightarrow>
                 map_of ps' k = map_option as_written (map_of ps k)))
       | _ \<Rightarrow> v = as_written d)"
proof -
  obtain d2 where am: "add_metadata ev d = Inr d2"
    using assms(4) add_metadata_object [of ev] add_metadata_other [of d ev] by (cases d) auto
  define line where "line = JSON_stringify d2"
  have dp: "depth d2 \<le> stringify_depth ev"
    using add_metadata_depth [OF am] assms(5) by simp
  have wf: "well_formed d2"
    using am JSON_parse_wf [OF assms(3)] by (rule add_metadata_well_formed)
  have e: "echo (join_depth ev) (logCount sv + 1) d2 = Inr console_line"
    using assms(7) by (simp add: echo_add_metadata [OF am])
  have h: "handle PORT ev sv req =
      Responded (reply 200 [] (js ''ok''))
        \<lparr>log_file = Some (contents sv @ line @ [0x0A]), logCount = logCount sv + 1\<rparr>"
    using on_end_appends [OF assms(3) am dp assms(6), of sv] e
    by (simp add: handle_post_debug [OF assms(1,2)] line_def)
  have n: "0x0A \<notin> set line"
    by (simp add: line_def stringify_no_newline)
  have p: "JSON_parse line = Some (as_written d2)"
    unfolding line_def using wf by (rule JSON_parse_stringify)
  have "case d of
         JObj ps \<Rightarrow>
           (\<exists>ps'. as_written d2 = JObj ps' \<and>
              map_of ps' (js ''id'') =
                Some (case map_of ps (js ''id'') of
                        None \<Rightarrow> JStr (new_id ev)
                      | Some x \<Rightarrow> if ToBoolean (Some x) then as_written x else JStr (new_id ev)) \<and>
              map_of ps' (js ''serverTimestamp'') =
                Some (as_written (JNum (number_of_nat (now_stamp ev)))) \<and>
              (\<forall>k. k \<noteq> js ''id'' \<and> k \<noteq> js ''serverTimestamp'' \<longrightarrow>
                 map_of ps' k = map_option as_written (map_of ps k)))
       | _ \<Rightarrow> as_written d2 = as_written d"
  proof (cases d)
    case (JObj ps)
    define ps' where "ps' = map (\<lambda>p. (fst p, as_written (snd p))) (with_metadata ev ps)"
    have "d2 = JObj (with_metadata ev ps)"
      using am JObj by (simp add: add_metadata_object)
    then have "as_written d2 = JObj ps'"
      by (simp add: ps'_def)
    moreover have "map_of ps' k =
        map_option as_written
          (((map_of ps)(js ''id'' \<mapsto> id_value ev ps,
             js ''serverTimestamp'' \<mapsto> JNum (number_of_nat (now_stamp ev)))) k)" for k
      by (simp only: ps'_def map_of_as_written map_of_with_metadata)
    ultimately have "\<exists>ps'. as_written d2 = JObj ps' \<and>
              map_of ps' (js ''id'') =
                Some (case map_of ps (js ''id'') of
                        None \<Rightarrow> JStr (new_id ev)
                      | Some x \<Rightarrow> if ToBoolean (Some x) then as_written x else JStr (new_id ev)) \<and>
              map_of ps' (js ''serverTimestamp'') =
                Some (as_written (JNum (number_of_nat (now_stamp ev)))) \<and>
              (\<forall>k. k \<noteq> js ''id'' \<and> k \<noteq> js ''serverTimestamp'' \<longrightarrow>
                 map_of ps' k = map_option as_written (map_of ps k))"
      by (intro exI [of _ ps']) (auto simp: id_value_def split: option.splits)
    with JObj show ?thesis
      by simp
  qed (use am assms(4) in \<open>auto simp: add_metadata_def Get_def Put_def\<close>)
  with h n p show ?thesis
    by (intro exI [of _ line] exI [of _ "as_written d2"]) simp
qed

theorem ingest_appends_one_line_witness:
  \<open>JSON_parse (js ''{"message":"x"}'') = Some (JObj [(js ''message'', JStr (js ''x''))]) \<and>
   depth (JObj [(js ''message'', JStr (js ''x''))]) \<le> stringify_depth ev_ok \<and>
   echo (join_depth ev_ok) (logCount sv_empty + 1) (JObj [(js ''message'', JStr (js ''x''))])
     = Inr (js ''[1]  undefined: x'') \<and>
   (\<exists>line ps'.
      handle 3947 ev_ok sv_empty
          \<lparr>http_method = js ''POST'', url = js ''/debug'', body = js ''{"message":"x"}''\<rparr> =
        Responded (reply 200 [] (js ''ok''))
          \<lparr>log_file = Some (contents sv_empty @ line @ [0x0A]),
           logCount = logCount sv_empty + 1\<rparr> \<and>
      0x0A \<notin> set line \<and>
      JSON_parse line = Some (JObj ps') \<and>
      map_of ps' (js ''id'') = Some (JStr (new_id ev_ok)) \<and>
      map_of ps' (js ''serverTimestamp'') = Some (JNum (number_of_nat (now_stamp ev_ok))) \<and>
      map_of ps' (js ''message'') = Some (JStr (js ''x'')))\<close>
proof -
  let ?req = \<open>\<lparr>http_method = js ''POST'', url = js ''/debug'', body = js ''{"message":"x"}''\<rparr>\<close>
  let ?d = "JObj [(js ''message'', JStr (js ''x''))]"
  have h: "http_method ?req = js ''POST''" "url ?req = js ''/debug''"
    "JSON_parse (body ?req) = Some ?d" "?d \<noteq> JNull"
    "depth ?d \<le> stringify_depth ev_ok" "\<not> storage_error ev_ok"
    by (simp_all add: parse_message_x ev_ok_def)
  have e: "echo (join_depth ev_ok) (logCount sv_empty + 1) ?d = Inr (js ''[1]  undefined: x'')"
    using echo_message_x by (simp add: sv_empty_def)
  from ingest_appends_one_line [OF h e, of 3947]
  obtain line ps' where r:
    "handle 3947 ev_ok sv_empty ?req =
        Responded (reply 200 [] (js ''ok''))
          \<lparr>log_file = Some (contents sv_empty @ line @ [0x0A]),
           logCount = logCount sv_empty + 1\<rparr>"
    "0x0A \<notin> set line" "JSON_parse line = Some (JObj ps')"
    "map_of ps' (js ''id'') =
       Some (case map_of [(js ''message'', JStr (js ''x''))] (js ''id'') of
               None \<Rightarrow> JStr (new_id ev_ok)
             | Some x \<Rightarrow> if ToBoolean (Some x) then as_written x else JStr (new_id ev_ok))"
    "map_of ps' (js ''serverTimestamp'') =
       Some (as_written (JNum (number_of_nat (now_stamp ev_ok))))"
    "\<forall>k. k \<noteq> js ''id'' \<and> k \<noteq> js ''serverTimestamp'' \<longrightarrow>
       map_of ps' k = map_option as_written (map_of [(js ''message'', JStr (js ''x''))] k)"
    unfolding jsval.case by blast
  have "map_of ps' (js ''id'') = Some (JStr (new_id ev_ok))"
    using r(4) by (simp add: js_def)
  moreover have "map_of ps' (js ''serverTimestamp'') = Some (JNum (number_of_nat (now_stamp ev_ok)))"
    using r(5) by (simp add: stamp_ev_ok)
  moreover have "map_of ps' (js ''message'') = Some (JStr (js ''x''))"
    using r(6) by simp
  ultimately show ?thesis
    using parse_message_x h(5) e r(1,2,3) by blast
qed

theorem valid_json_null_not_appended:
  "JSON_parse (js ''null'') = Some JNull \<and>
   handle 3947 ev_ok sv_empty \<lparr>http_method = js ''POST'', url = js ''/debug'', body = js ''null''\<rparr>
     = Responded (reply 400 [] (js ''Invalid JSON'')) sv_empty"
  by (simp add: handle_def on_end_def try_ingest_def parse_null add_metadata_null)

text \<open>
  Claim C4, amended. For a body that parses to a JSON object which is not nested more
  deeply than \<open>JSON.stringify\<close> has stack for, and whose append succeeds, the \<open>id\<close> of
  the persisted entry is the caller's when that is truthy, and the server's new id
  when the payload has no \<open>id\<close> or a falsy one. The caller's \<open>id\<close> is what \<open>JSON.parse\<close>
  made of it, every number in it the binary64 nearest to its literal, and a number too
  large for a binary64 is written as \<open>null\<close>.
\<close>

theorem persisted_id:
  assumes "http_method req = js ''POST''" and "url req = js ''/debug''"
    and "JSON_parse (body req) = Some (JObj ps)"
    and "depth (JObj ps) \<le> stringify_depth ev"
    and "\<not> storage_error ev"
  shows "\<exists>r line ps'.
      handle PORT ev sv req =
        Responded r \<lparr>log_file = Some (contents sv @ line @ [0x0A]), logCount = logCount sv + 1\<rparr> \<and>
      JSON_parse line = Some (JObj ps') \<and>
      (ToBoolean (map_of ps (js ''id'')) \<longrightarrow>
         map_of ps' (js ''id'') = map_option as_written (map_of ps (js ''id''))) \<and>
      (\<not> ToBoolean (map_of ps (js ''id'')) \<longrightarrow>
         map_of ps' (js ''id'') = Some (JStr (new_id ev)))"
proof -
  define d2 where "d2 = JObj (with_metadata ev ps)"
  define line where "line = JSON_stringify d2"
  define ps' where "ps' = map (\<lambda>p. (fst p, as_written (snd p))) (with_metadata ev ps)"
  define r where "r = (case echo (join_depth ev) (logCount sv + 1) d2 of
      Inl e \<Rightarrow> reply 400 [] (js ''Invalid JSON'') | Inr l \<Rightarrow> reply 200 [] (js ''ok''))"
  have am: "add_metadata ev (JObj ps) = Inr d2"
    by (simp add: d2_def add_metadata_object)
  have dp: "depth d2 \<le> stringify_depth ev"
    using add_metadata_depth [OF am] assms(4) by simp
  have wf: "well_formed d2"
    unfolding d2_def by (rule well_formed_with_metadata [OF JSON_parse_wf [OF assms(3)]])
  have "handle PORT ev sv req =
      Responded r \<lparr>log_file = Some (contents sv @ line @ [0x0A]), logCount = logCount sv + 1\<rparr>"
    using on_end_appends [OF assms(3) am dp assms(5), of sv]
    by (simp add: handle_post_debug [OF assms(1,2)] line_def r_def)
  moreover have "JSON_parse line = Some (JObj ps')"
    using JSON_parse_stringify [OF wf] by (simp add: line_def d2_def ps'_def)
  moreover have "map_of ps' (js ''id'') = Some (as_written (id_value ev ps))"
    by (simp add: ps'_def map_of_as_written map_of_with_metadata)
  ultimately show ?thesis
    by (intro exI [of _ r] exI [of _ line] exI [of _ ps'])
      (auto simp: id_value_def split: option.splits)
qed

theorem persisted_id_witness:
  \<open>JSON_parse (js ''{"id":"abc"}'') = Some (JObj [(js ''id'', JStr (js ''abc''))]) \<and>
   depth (JObj [(js ''id'', JStr (js ''abc''))]) \<le> stringify_depth ev_ok \<and>
   ToBoolean (map_of [(js ''id'', JStr (js ''abc''))] (js ''id'')) \<and>
   (\<exists>r line ps'.
      handle 3947 ev_ok sv_empty
          \<lparr>http_method = js ''POST'', url = js ''/debug'', body = js ''{"id":"abc"}''\<rparr> =
        Responded r
          \<lparr>log_file = Some (contents sv_empty @ line @ [0x0A]),
           logCount = logCount sv_empty + 1\<rparr> \<and>
      JSON_parse line = Some (JObj ps') \<and>
      map_of ps' (js ''id'') = Some (JStr (js ''abc'')))\<close>
proof -
  let ?req = \<open>\<lparr>http_method = js ''POST'', url = js ''/debug'', body = js ''{"id":"abc"}''\<rparr>\<close>
  have h: "http_method ?req = js ''POST''" "url ?req = js ''/debug''"
    "JSON_parse (body ?req) = Some (JObj [(js ''id'', JStr (js ''abc''))])"
    "depth (JObj [(js ''id'', JStr (js ''abc''))]) \<le> stringify_depth ev_ok"
    "\<not> storage_error ev_ok"
    by (simp_all add: parse_id_abc ev_ok_def)
  have t: "ToBoolean (map_of [(js ''id'', JStr (js ''abc''))] (js ''id''))"
    by (simp add: js_def)
  from persisted_id [OF h, of 3947 sv_empty] t parse_id_abc h(4) show ?thesis
    by auto
qed

theorem falsy_id_replaced:
  \<open>JSON_parse (js ''{"id":0}'') = Some (JObj [(js ''id'', JNum (Finite 0 0))]) \<and>
   handle 3947 ev_ok sv_empty
      \<lparr>http_method = js ''POST'', url = js ''/debug'', body = js ''{"id":0}''\<rparr>
    = Responded (reply 200 [] (js ''ok''))
        \<lparr>log_file = Some (js ''{"id":"log_1700000000123_k3x9","serverTimestamp":1700000000124}''
                           @ [0x0A]),
         logCount = 1\<rparr>\<close>
  using parse_id_zero ingest_id_zero by (intro conjI)

text \<open>
  Claim C5, amended. In every state reached from the start of the server by requests,
  each non-empty line of the body of a 200 answer to \<open>GET /logs\<close> is the text of one
  value and parses as JSON; the value is whatever was ingested, not always an object.
\<close>

theorem logs_lines_are_json:
  assumes "startup ev0 old = Some sv0"
    and "serve PORT sv0 trace = Some (rs, sv)"
    and "handle PORT ev sv \<lparr>http_method = js ''GET'', url = js ''/logs'', body = b\<rparr>
           = Responded r sv'"
    and "statusCode r = 200"
    and "l \<in> set (split_lines (content r))" and "l \<noteq> []"
  shows "\<exists>v. well_formed v \<and> l = JSON_stringify v \<and> JSON_parse l = Some (as_written v)"
proof -
  have "contents sv0 = log_of []" "list_all well_formed []"
    using startup_log [OF assms(1)] by simp_all
  from serve_log [OF this assms(2)] obtain vs where
    vs: "contents sv = log_of vs" "list_all well_formed vs"
    by blast
  from get_logs_content [OF assms(3,4)] vs(1) have "content r = log_of vs"
    by simp
  with assms(5,6) have "l \<in> set (map JSON_stringify vs)"
    by (simp add: split_lines_log_of)
  then obtain v where "v \<in> set vs" "l = JSON_stringify v"
    by auto
  with vs(2) JSON_parse_stringify [of v] show ?thesis
    by (auto simp: list_all_iff)
qed

theorem logs_lines_are_json_witness:
  "startup ev_ok None = Some sv_empty \<and>
   serve 3947 sv_empty
      [(ev_ok, \<lparr>http_method = js ''POST'', url = js ''/debug'', body = js ''5''\<rparr>)]
     = Some ([reply 200 [] (js ''ok'')], \<lparr>log_file = Some (js ''5'' @ [0x0A]), logCount = 1\<rparr>) \<and>
   handle 3947 ev_ok \<lparr>log_file = Some (js ''5'' @ [0x0A]), logCount = 1\<rparr>
      \<lparr>http_method = js ''GET'', url = js ''/logs'', body = []\<rparr>
     = Responded (reply 200 [(js ''Content-Type'', js ''application/x-ndjson'')] (js ''5'' @ [0x0A]))
         \<lparr>log_file = Some (js ''5'' @ [0x0A]), logCount = 1\<rparr> \<and>
   js ''5'' \<in> set (split_lines (js ''5'' @ [0x0A])) \<and>
   (\<exists>v. well_formed v \<and> js ''5'' = JSON_stringify v \<and> JSON_parse (js ''5'') = Some (as_written v))"
proof -
  let ?sv = "\<lparr>log_file = Some (js ''5'' @ [0x0A]), logCount = 1\<rparr>"
  let ?r = "reply 200 [(js ''Content-Type'', js ''application/x-ndjson'')] (js ''5'' @ [0x0A])"
  have a: "startup ev_ok None = Some sv_empty"
    by (simp add: startup_def writeFileSync_def ev_ok_def sv_empty_def)
  have b: "serve 3947 sv_empty
      [(ev_ok, \<lparr>http_method = js ''POST'', url = js ''/debug'', body = js ''5''\<rparr>)]
     = Some ([reply 200 [] (js ''ok'')], ?sv)"
    using ingest_five by simp
  have c: "handle 3947 ev_ok ?sv \<lparr>http_method = js ''GET'', url = js ''/logs'', body = []\<rparr>
      = Responded ?r ?sv"
    by (simp add: handle_def existsSync_def readFileSync_def ev_ok_def)
  have d: "statusCode ?r = 200" "js ''5'' \<in> set (split_lines (content ?r))" "js ''5'' \<noteq> []"
    by (simp_all add: reply_def js_def)
  from logs_lines_are_json [OF a b c d] a b c d(2) show ?thesis
    by (simp add: reply_def)
qed

theorem logged_line_not_an_object:
  "startup ev_ok None = Some sv_empty \<and>
   serve 3947 sv_empty
      [(ev_ok, \<lparr>http_method = js ''POST'', url = js ''/debug'', body = js ''5''\<rparr>),
       (ev_ok, \<lparr>http_method = js ''GET'', url = js ''/logs'', body = []\<rparr>)]
     = Some ([reply 200 [] (js ''ok''),
              reply 200 [(js ''Content-Type'', js ''application/x-ndjson'')] (js ''5'' @ [0x0A])],
             \<lparr>log_file = Some (js ''5'' @ [0x0A]), logCount = 1\<rparr>) \<and>
   split_lines (js ''5'' @ [0x0A]) = [js ''5'', []] \<and>
   JSON_parse (js ''5'') = Some (JNum (Finite 5 0))"
proof -
  have "handle 3947 ev_ok \<lparr>log_file = Some (js ''5'' @ [0x0A]), logCount = 1\<rparr>
      \<lparr>http_method = js ''GET'', url = js ''/logs'', body = []\<rparr>
      = Responded
          (reply 200 [(js ''Content-Type'', js ''application/x-ndjson'')] (js ''5'' @ [0x0A]))
          \<lparr>log_file = Some (js ''5'' @ [0x0A]), logCount = 1\<rparr>"
    by (simp add: handle_def existsSync_def readFileSync_def ev_ok_def)
  moreover have "startup ev_ok None = Some sv_empty"
    by (simp add: startup_def writeFileSync_def ev_ok_def sv_empty_def)
  moreover have "split_lines (js ''5'' @ [0x0A]) = [js ''5'', []]"
    by (simp add: js_def)
  ultimately show ?thesis
    using ingest_five parse_five by simp
qed

text \<open>
  Claim C3. \<open>POST /health\<close> is none of the four routes and no \<open>OPTIONS\<close>, and it is
  answered with the health report and status 200, not with 404: the \<open>/health\<close> branch
  does not look at the method.
\<close>

theorem post_health_answered:
  \<open>handle 3947 ev_ok sv_two \<lparr>http_method = js ''POST'', url = js ''/health'', body = []\<rparr>
     = Responded
         (reply 200 [(js ''Content-Type'', js ''application/json'')]
            (js ''{"status":"ok","logCount":2,"port":3947}''))
         sv_two \<and>
   statusCode
     (reply 200 [(js ''Content-Type'', js ''application/json'')]
        (js ''{"status":"ok","logCount":2,"port":3947}'')) \<noteq> 404\<close>
proof -
  have "number_of_nat (logCount sv_two) = Finite 2 0"
    by (simp add: sv_two_def stringify_eval)
  then show ?thesis
    by (simp add: handle_def number_of_nat_3947 reply_def) (simp add: stringify_eval)
qed

text \<open>
  Claim C2. With a write that fails, \<open>POST /clear\<close> throws outside any \<open>try\<close>: no
  response is written and the process ends, so no later request is served; and
  \<open>POST /debug\<close> with a valid body is answered with 400 "Invalid JSON", not with a
  server error.
\<close>

theorem storage_error_not_reported:
  "handle 3947 ev_fail sv_two \<lparr>http_method = js ''POST'', url = js ''/clear'', body = []\<rparr>
     = Crashed \<and>
   serve 3947 sv_two
      [(ev_fail, \<lparr>http_method = js ''POST'', url = js ''/clear'', body = []\<rparr>),
       (ev_ok, \<lparr>http_method = js ''GET'', url = js ''/health'', body = []\<rparr>)] = None \<and>
   JSON_parse (js ''{}'') = Some (JObj []) \<and>
   handle 3947 ev_fail sv_two \<lparr>http_method = js ''POST'', url = js ''/debug'', body = js ''{}''\<rparr>
     = Responded (reply 400 [] (js ''Invalid JSON'')) sv_two"
proof -
  have f: "storage_error ev_fail"
    by (simp add: ev_fail_def)
  have "handle 3947 ev_fail sv_two \<lparr>http_method = js ''POST'', url = js ''/clear'', body = []\<rparr>
      = Crashed"
    using f by (simp add: handle_def writeFileSync_def)
  moreover have "handle 3947 ev_fail sv_two
      \<lparr>http_method = js ''POST'', url = js ''/debug'', body = js ''{}''\<rparr>
      = Responded (reply 400 [] (js ''Invalid JSON'')) sv_two"
    using f
    by (simp add: handle_def on_end_def try_ingest_def parse_empty_object add_metadata_object
        stringify_within_def appendFileSync_def)
  ultimately show ?thesis
    by (simp add: parse_empty_object)
qed

end
